theory Spec2Isabelle
  imports Main "HOL-Library.AList" "HOL-Library.Multiset"
begin

section \<open>Data model of the workspace (class \<open>Workspace\<close> and its packages)\<close>

text \<open>
  A JavaScript object with string keys is an association list with distinct keys, in
  the order \<open>Object.keys\<close> enumerates them (insertion order; package names are not
  array indices). \<open>obj[k]\<close> on a missing key is \<open>undefined\<close>, here \<open>None\<close>; every use of
  \<open>undefined\<close> as an object (\<open>.size\<close>, \<open>.forEach\<close>, spreading, \<open>.manifest\<close>) throws a
  \<open>TypeError\<close>, which the model returns as \<open>Inl TypeError\<close>.
\<close>

datatype error = TypeError

type_synonym 'v obj = "(string \<times> 'v) list"

definition Object_keys :: "'v obj \<Rightarrow> string list" where
  "Object_keys obj = map fst obj"

definition obj_get :: "'v obj \<Rightarrow> string \<Rightarrow> 'v option" where
  "obj_get obj k = map_of obj k"

definition obj_set :: "'v obj \<Rightarrow> string \<Rightarrow> 'v \<Rightarrow> 'v obj" where
  "obj_set obj k v = AList.update k v obj"

text \<open>lodash \<open>_.fromPairs\<close>: assigns the pairs from left to right, a later pair
  overwriting the value of an equal key.\<close>

definition fromPairs :: "(string \<times> 'v) list \<Rightarrow> 'v obj" where
  "fromPairs pairs = fold (\<lambda>(k, v) obj. obj_set obj k v) pairs []"

text \<open>A JavaScript \<open>Set\<close> is the list of its elements in insertion order, without
  duplicates: \<open>add\<close> appends an element that is not yet there.\<close>

definition set_add :: "'a list \<Rightarrow> 'a \<Rightarrow> 'a list" where
  "set_add s x = (if x \<in> set s then s else s @ [x])"

text \<open>\<open>xs.forEach(x => s.add(x))\<close>.\<close>

definition add_all :: "'a list \<Rightarrow> 'a list \<Rightarrow> 'a list" where
  "add_all s xs = fold (\<lambda>x s. set_add s x) xs s"

definition new_Set :: "'a list \<Rightarrow> 'a list" where
  "new_Set xs = add_all [] xs"

text \<open>\<open>xs.forEach(f)\<close> with a callback that updates the state \<open>s\<close> and may throw, and
  \<open>xs.map(f)\<close> with a callback that may throw.\<close>

fun forEach :: "'a list \<Rightarrow> ('a \<Rightarrow> 's \<Rightarrow> error + 's) \<Rightarrow> 's \<Rightarrow> error + 's" where
  "forEach [] f s = Inr s"
| "forEach (x # xs) f s = (case f x s of Inl e \<Rightarrow> Inl e | Inr s' \<Rightarrow> forEach xs f s')"

fun mapE :: "'a list \<Rightarrow> ('a \<Rightarrow> error + 'b) \<Rightarrow> error + 'b list" where
  "mapE [] f = Inr []"
| "mapE (x # xs) f =
     (case f x of Inl e \<Rightarrow> Inl e
      | Inr y \<Rightarrow> (case mapE xs f of Inl e \<Rightarrow> Inl e | Inr ys \<Rightarrow> Inr (y # ys)))"

text \<open>The manifest of a package: of \<open>package.json\<close> only the three dependency
  objects (name to version range) are read by the workspace; each may be absent.\<close>

record Manifest =
  dependencies :: "string obj option"
  devDependencies :: "string obj option"
  peerDependencies :: "string obj option"

record Package =
  name :: string
  manifest :: Manifest

type_synonym DepGraph = "string list obj"

record Workspace =
  packages :: "Package list"
  pkgMap :: "Package obj"
  depGraph :: DepGraph

section \<open>buildDepGraph\<close>

text \<open>The entry of one package before the closure: the keys of its three dependency
  objects, flattened, filtered by membership in \<open>rootSet\<close>, as a \<open>Set\<close>.\<close>

definition declaredNames :: "Package \<Rightarrow> string list" where
  "declaredNames pkg =
     (let m = manifest pkg;
          allVersionedDeps = [dependencies m, devDependencies m, peerDependencies m]
      in concat (map (\<lambda>deps. Object_keys (case deps of None \<Rightarrow> [] | Some d \<Rightarrow> d))
           allVersionedDeps))"

definition internalDeps :: "string list \<Rightarrow> Package \<Rightarrow> string list" where
  "internalDeps rootSet pkg = new_Set (filter (\<lambda>n. n \<in> set rootSet) (declaredNames pkg))"

text \<open>\<open>union(a, b)\<close> adds every element of \<open>b\<close> to \<open>a\<close> and tells whether \<open>a\<close> grew.
  The source mutates \<open>a\<close>; the model returns the new \<open>a\<close> with the flag.\<close>

definition union :: "'a list \<Rightarrow> 'a list \<Rightarrow> 'a list \<times> bool" where
  "union a b =
     (let n = length a;
          a' = add_all a b
      in (a', length a' > n))"

text \<open>The body of the inner \<open>deps.forEach\<close>:
  \<open>changed = union(depGraph[name], depGraph[dep]) || changed\<close>.\<close>

definition union_dep :: "string \<Rightarrow> string \<Rightarrow> DepGraph \<times> bool \<Rightarrow> error + DepGraph \<times> bool" where
  "union_dep nm dep = (\<lambda>(g, changed).
     case obj_get g nm of None \<Rightarrow> Inl TypeError
     | Some a \<Rightarrow>
        (case obj_get g dep of None \<Rightarrow> Inl TypeError
         | Some b \<Rightarrow>
            (let (a', grew) = union a b
             in Inr (obj_set g nm a', grew \<or> changed))))"

text \<open>The body of the outer \<open>forEach\<close> over the keys: \<open>deps\<close> is a copy of the entry taken
  before the inner loop runs.\<close>

definition close_name :: "string \<Rightarrow> DepGraph \<times> bool \<Rightarrow> error + DepGraph \<times> bool" where
  "close_name nm = (\<lambda>(g, changed).
     case obj_get g nm of None \<Rightarrow> Inl TypeError
     | Some deps \<Rightarrow> forEach deps (union_dep nm) (g, changed))"

text \<open>One round of the \<open>while (true)\<close> loop, up to the test of \<open>changed\<close>.\<close>

definition pass :: "DepGraph \<Rightarrow> error + DepGraph \<times> bool" where
  "pass g = forEach (Object_keys g) close_name (g, False)"

text \<open>The \<open>while (true)\<close> loop: \<open>None\<close> is a loop that never breaks.\<close>

partial_function (option) fixpoint :: "DepGraph \<Rightarrow> (error + DepGraph) option" where
  "fixpoint g =
     (case pass g of Inl e \<Rightarrow> Some (Inl e)
      | Inr (g', changed) \<Rightarrow> if changed then fixpoint g' else Some (Inr g'))"

definition buildDepGraph :: "Package obj \<Rightarrow> (error + DepGraph) option" where
  "buildDepGraph pm =
     (let rootSet = new_Set (Object_keys pm) in
      case mapE rootSet (\<lambda>nm. case obj_get pm nm of None \<Rightarrow> Inl TypeError
                               | Some pkg \<Rightarrow> Inr (nm, internalDeps rootSet pkg)) of
        Inl e \<Rightarrow> Some (Inl e)
      | Inr pairs \<Rightarrow>
         (case fixpoint (fromPairs pairs) of
            None \<Rightarrow> None
          | Some (Inl e) \<Rightarrow> Some (Inl e)
          | Some (Inr g) \<Rightarrow>
             (case mapE (Object_keys g) (\<lambda>nm. case obj_get g nm of None \<Rightarrow> Inl TypeError
                                              | Some ds \<Rightarrow> Inr (nm, ds)) of
                Inl e \<Rightarrow> Some (Inl e)
              | Inr pairs' \<Rightarrow> Some (Inr (fromPairs pairs')))))"

text \<open>The constructor of \<open>Workspace\<close>: \<open>pkgMap\<close> from the packages' names, then the
  dependency graph.\<close>

definition new_Workspace :: "Package list \<Rightarrow> (error + Workspace) option" where
  "new_Workspace pkgs =
     (let pm = fromPairs (map (\<lambda>pkg. (name pkg, pkg)) pkgs) in
      case buildDepGraph pm of
        None \<Rightarrow> None
      | Some (Inl e) \<Rightarrow> Some (Inl e)
      | Some (Inr g) \<Rightarrow> Some (Inr \<lparr>packages = pkgs, pkgMap = pm, depGraph = g\<rparr>))"

section \<open>dependencyClosure\<close>

text \<open>The body of the \<open>forEach\<close> over the copy of \<open>depsSet\<close>:
  \<open>this.depGraph[p].forEach(p2 => depsSet.add(p2))\<close>.\<close>

definition add_deps :: "DepGraph \<Rightarrow> string \<Rightarrow> string list \<Rightarrow> error + string list" where
  "add_deps g p depsSet =
     (case obj_get g p of None \<Rightarrow> Inl TypeError | Some ds \<Rightarrow> Inr (add_all depsSet ds))"

definition closure_pass :: "DepGraph \<Rightarrow> string list \<Rightarrow> error + string list" where
  "closure_pass g depsSet = forEach depsSet (add_deps g) depsSet"

partial_function (option) closure_loop ::
    "DepGraph \<Rightarrow> string list \<Rightarrow> (error + string list) option" where
  "closure_loop g depsSet =
     (let n = length depsSet in
      case closure_pass g depsSet of Inl e \<Rightarrow> Some (Inl e)
      | Inr depsSet' \<Rightarrow>
          if length depsSet' = n then Some (Inr depsSet') else closure_loop g depsSet')"

text \<open>The result maps the names back through \<open>pkgMap\<close>. A name without a package would
  give an \<open>undefined\<close> element, on which \<open>runPackages\<close> fails at its first use
  (\<open>pkg.name\<close>); the model, whose result is a list of packages, reports it here.\<close>

definition dependencyClosure :: "Workspace \<Rightarrow> Package list \<Rightarrow> (error + Package list) option" where
  "dependencyClosure ws roots =
     (case closure_loop (depGraph ws) (new_Set (map name roots)) of
        None \<Rightarrow> None
      | Some (Inl e) \<Rightarrow> Some (Inl e)
      | Some (Inr depsSet) \<Rightarrow>
          Some (mapE depsSet (\<lambda>p. case obj_get (pkgMap ws) p of None \<Rightarrow> Inl TypeError
                                   | Some pkg \<Rightarrow> Inr pkg)))"

section \<open>runPackages\<close>

text \<open>
  Modelled from the spec: the type \<open>Command\<close>, which the workspace imports from
  \<open>./common\<close>. A command has an optional per-package run function, an optional
  workspace-level run function and an optional flag function \<open>parallel\<close>. The run
  functions are asynchronous and opaque: the model takes the boolean the promise of
  \<open>run\<close> resolves with, per package (the task of a package is called at most once in a
  run), the boolean \<open>runWorkspace\<close> resolves with, and the boolean \<open>parallel\<close> returns.
\<close>

record Command =
  run :: "(Package \<Rightarrow> bool) option"
  runWorkspace :: "bool option"
  parallel :: "bool option"

datatype Status = Queued | Running | Finished

datatype PromiseState = Pending | Resolved | Rejected

text \<open>What happens during a run, in order: \<open>Started n\<close> is the call \<open>cmd.run(pkg)\<close> for the
  package named \<open>n\<close> (after \<open>console.log("Running task for:", n)\<close>), \<open>Completed n b\<close> is
  the resumption after \<open>await\<close> with the task's result \<open>b\<close>.\<close>

datatype event = Started string | Completed string bool

text \<open>The state of the ordered mode: the \<open>status\<close> table, the state of \<open>promise\<close>, and
  the events so far.\<close>

record sched =
  status :: "Status obj"
  promise :: PromiseState
  trace :: "event list"

text \<open>\<open>resolve()\<close> and \<open>reject()\<close> settle a pending promise and do nothing to a settled
  one.\<close>

definition resolve :: "sched \<Rightarrow> sched" where
  "resolve st = (if promise st = Pending then st\<lparr>promise := Resolved\<rparr> else st)"

definition reject :: "sched \<Rightarrow> sched" where
  "reject st = (if promise st = Pending then st\<lparr>promise := Rejected\<rparr> else st)"

fun filterE :: "('a \<Rightarrow> error + bool) \<Rightarrow> 'a list \<Rightarrow> error + 'a list" where
  "filterE f [] = Inr []"
| "filterE f (x # xs) =
     (case f x of Inl e \<Rightarrow> Inl e
      | Inr b \<Rightarrow> (case filterE f xs of Inl e \<Rightarrow> Inl e
                  | Inr ys \<Rightarrow> Inr (if b then x # ys else ys)))"

text \<open>\<open>canExecute()\<close>: the queued packages all of whose graph entry is finished. The
  entry is read only for a queued package (\<open>&&\<close>).\<close>

definition canExecute :: "DepGraph \<Rightarrow> Package list \<Rightarrow> Status obj \<Rightarrow> error + Package list" where
  "canExecute g pkgs st =
     filterE (\<lambda>pkg.
         if obj_get st (name pkg) = Some Queued
         then (case obj_get g (name pkg) of None \<Rightarrow> Inl TypeError
               | Some ds \<Rightarrow> Inr (list_all (\<lambda>n. obj_get st n = Some Finished) ds))
         else Inr False)
       pkgs"

text \<open>The callback of \<open>runTasks\<close> up to its \<open>await\<close>: log, mark as running, call the task.\<close>

definition start_task :: "Package \<Rightarrow> sched \<Rightarrow> sched" where
  "start_task pkg st =
     st\<lparr>status := obj_set (status st) (name pkg) Running,
        trace := trace st @ [Started (name pkg)]\<rparr>"

definition runTasks :: "DepGraph \<Rightarrow> Package list \<Rightarrow> sched \<Rightarrow> error + sched" where
  "runTasks g pkgs st =
     (case canExecute g pkgs (status st) of Inl e \<Rightarrow> Inl e
      | Inr ready \<Rightarrow> Inr (fold start_task ready st))"

text \<open>The executor of \<open>promise\<close>: the first \<open>runTasks()\<close>. An exception thrown by an
  executor rejects its promise.\<close>

definition start_run :: "DepGraph \<Rightarrow> Package list \<Rightarrow> sched" where
  "start_run g pkgs =
     (let st = \<lparr>status = fromPairs (map (\<lambda>pkg. (name pkg, Queued)) pkgs),
                promise = Pending, trace = []\<rparr>
      in case runTasks g pkgs st of Inl e \<Rightarrow> reject st | Inr st' \<Rightarrow> st')"

text \<open>The callback of \<open>runTasks\<close> after its \<open>await\<close>, for the package \<open>pkg\<close> whose task
  resolved with \<open>success\<close>. An exception in the nested \<open>runTasks()\<close> ends this callback
  only.\<close>

definition complete :: "DepGraph \<Rightarrow> Package list \<Rightarrow> Package \<Rightarrow> bool \<Rightarrow> sched \<Rightarrow> sched" where
  "complete g pkgs pkg success st =
     (let st1 = (if \<not> success then reject st else st);
          st2 = st1\<lparr>status := obj_set (status st1) (name pkg) Finished,
                    trace := trace st1 @ [Completed (name pkg) success]\<rparr>
      in if list_all (\<lambda>k. obj_get (status st2) k = Some Finished) (Object_keys (status st2))
         then resolve st2
         else (case runTasks g pkgs st2 of Inl e \<Rightarrow> st2 | Inr st3 \<Rightarrow> st3))"

text \<open>
  The order in which the running tasks complete is the environment's choice: a schedule
  is a list of packages, the next one being the next task to complete. Only a running
  task can complete, so an entry that is not a running package of the run is skipped,
  and every list is the schedule of an execution. Tasks that never complete do not
  occur in the schedule.
\<close>

definition complete_next ::
    "DepGraph \<Rightarrow> (Package \<Rightarrow> bool) \<Rightarrow> Package list \<Rightarrow> Package \<Rightarrow> sched \<Rightarrow> sched" where
  "complete_next g task pkgs pkg st =
     (if pkg \<in> set pkgs \<and> obj_get (status st) (name pkg) = Some Running
      then complete g pkgs pkg (task pkg) st else st)"

definition ordered_run ::
    "DepGraph \<Rightarrow> (Package \<Rightarrow> bool) \<Rightarrow> Package list \<Rightarrow> Package list \<Rightarrow> sched" where
  "ordered_run g task pkgs schedule = fold (complete_next g task pkgs) schedule (start_run g pkgs)"

text \<open>The result of a run under a schedule: \<open>selected\<close> is the list \<open>pkgs\<close> the run works
  on, \<open>returned\<close> the boolean the promise of \<open>runPackages\<close> resolves with (\<open>None\<close> while it
  is pending), \<open>events\<close> what happened.\<close>

record run_result =
  selected :: "Package list"
  returned :: "bool option"
  events :: "event list"

text \<open>The parallel mode calls the task of every package at once, in the order of \<open>pkgs\<close>,
  and \<open>Promise.all\<close> waits until all of them have completed.\<close>

definition parallel_run :: "(Package \<Rightarrow> bool) \<Rightarrow> Package list \<Rightarrow> Package list \<Rightarrow> run_result" where
  "parallel_run task pkgs schedule =
     \<lparr>selected = pkgs,
      returned = (if list_all (\<lambda>pkg. pkg \<in> set schedule) pkgs
                  then Some (list_all (\<lambda>x. x) (map task pkgs)) else None),
      events = map (\<lambda>pkg. Started (name pkg)) pkgs @
               map (\<lambda>pkg. Completed (name pkg) (task pkg))
                 (filter (\<lambda>pkg. pkg \<in> set pkgs) (remdups schedule))\<rparr>"

text \<open>\<open>runPackages(cmd, only)\<close>. \<open>par\<close> is \<open>cmd.parallel && cmd.parallel()\<close> and \<open>task\<close> is
  \<open>cmd.run!\<close>, which the source asserts to be present. \<open>await promise\<close> gives \<open>true\<close> when
  the promise is resolved and \<open>false\<close> when it is rejected.\<close>

definition runPackages ::
    "Workspace \<Rightarrow> bool \<Rightarrow> (Package \<Rightarrow> bool) \<Rightarrow> Package list option \<Rightarrow> Package list
       \<Rightarrow> (error + run_result) option" where
  "runPackages ws par task only schedule =
     (let rootSet = (case only of None \<Rightarrow> packages ws | Some ps \<Rightarrow> ps) in
      case dependencyClosure ws rootSet of
        None \<Rightarrow> None
      | Some (Inl e) \<Rightarrow> Some (Inl e)
      | Some (Inr pkgs) \<Rightarrow>
          if par then Some (Inr (parallel_run task pkgs schedule))
          else (let st = ordered_run (depGraph ws) task pkgs schedule in
                Some (Inr \<lparr>selected = pkgs,
                           returned = (case promise st of Pending \<Rightarrow> None
                                       | Resolved \<Rightarrow> Some True | Rejected \<Rightarrow> Some False),
                           events = trace st\<rparr>)))"

section \<open>Workspace.run\<close>

text \<open>The outcome of \<open>run\<close>: the result of the per-package part when \<open>cmd.run\<close> is
  present, how many times \<open>cmd.runWorkspace\<close> was called, and the boolean \<open>run\<close> resolves
  with (\<open>None\<close> when it never does, because \<open>runPackages\<close> never does).\<close>

record ws_result =
  perPackage :: "run_result option"
  workspaceCalls :: nat
  result :: "bool option"

definition Workspace_run ::
    "Workspace \<Rightarrow> Command \<Rightarrow> Package list option \<Rightarrow> Package list \<Rightarrow> (error + ws_result) option" where
  "Workspace_run ws cmd only schedule =
     (let success = True;
          finish = (\<lambda>pp success.
             case runWorkspace cmd of
               None \<Rightarrow> \<lparr>perPackage = pp, workspaceCalls = 0, result = Some success\<rparr>
             | Some w \<Rightarrow> \<lparr>perPackage = pp, workspaceCalls = 1, result = Some (w \<and> success)\<rparr>)
      in case run cmd of
           None \<Rightarrow> Some (Inr (finish None success))
         | Some task \<Rightarrow>
             (case runPackages ws (parallel cmd = Some True) task only schedule of
                None \<Rightarrow> None
              | Some (Inl e) \<Rightarrow> Some (Inl e)
              | Some (Inr r) \<Rightarrow>
                  (case returned r of
                     None \<Rightarrow> Some (Inr \<lparr>perPackage = Some r, workspaceCalls = 0, result = None\<rparr>)
                   | Some b \<Rightarrow> Some (Inr (finish (Some r) (b \<and> success))))))"

section \<open>Loading and running\<close>

text \<open>A run works on a constructed workspace. These two compositions construct the
  workspace from a package list and run on it, so that a run can be stated from the
  package list alone.\<close>

definition load_runPackages ::
    "Package list \<Rightarrow> bool \<Rightarrow> (Package \<Rightarrow> bool) \<Rightarrow> Package list option \<Rightarrow> Package list
       \<Rightarrow> (error + run_result) option" where
  "load_runPackages ps par task only schedule =
     (case new_Workspace ps of
        None \<Rightarrow> None
      | Some (Inl e) \<Rightarrow> Some (Inl e)
      | Some (Inr ws) \<Rightarrow> runPackages ws par task only schedule)"

definition load_run ::
    "Package list \<Rightarrow> Command \<Rightarrow> Package list option \<Rightarrow> Package list
       \<Rightarrow> (error + ws_result) option" where
  "load_run ps cmd only schedule =
     (case new_Workspace ps of
        None \<Rightarrow> None
      | Some (Inl e) \<Rightarrow> Some (Inl e)
      | Some (Inr ws) \<Rightarrow> Workspace_run ws cmd only schedule)"

text \<open>Tasks for the examples: one that succeeds on every package, and one that fails on
  the package of a given name only.\<close>

definition succeeds :: "Package \<Rightarrow> bool" where
  "succeeds p = True"

definition fails_on :: "string \<Rightarrow> Package \<Rightarrow> bool" where
  "fails_on n p = (name p \<noteq> n)"

section \<open>Reading the graph and the declared dependencies\<close>

text \<open>\<open>b\<close> is in the entry of \<open>a\<close>: \<open>depGraph[a].includes(b)\<close>, false when \<open>a\<close> has no
  entry.\<close>

definition depends_on :: "DepGraph \<Rightarrow> string \<Rightarrow> string \<Rightarrow> bool" where
  "depends_on g a b = (case obj_get g a of None \<Rightarrow> False | Some ds \<Rightarrow> b \<in> set ds)"

text \<open>The package registered under \<open>a\<close> declares the workspace package \<open>b\<close> in one of
  its three dependency objects: the direct internal dependencies, before the closure.\<close>

definition declares :: "Package obj \<Rightarrow> string \<Rightarrow> string \<Rightarrow> bool" where
  "declares pm a b =
     (case obj_get pm a of None \<Rightarrow> False
      | Some p \<Rightarrow> b \<in> set (declaredNames p) \<and> b \<in> set (Object_keys pm))"

text \<open>A chain \<open>x\<^sub>1, x\<^sub>2, \<dots>\<close> in which every element is related to the next one, and a
  dependency cycle: a non-empty chain of declared dependencies whose last package
  declares the first.\<close>

fun chain :: "(string \<Rightarrow> string \<Rightarrow> bool) \<Rightarrow> string list \<Rightarrow> bool" where
  "chain r [] = True"
| "chain r [x] = True"
| "chain r (x # y # zs) = (r x y \<and> chain r (y # zs))"

definition cycle :: "Package obj \<Rightarrow> string list \<Rightarrow> bool" where
  "cycle pm c = (c \<noteq> [] \<and> chain (declares pm) (c @ [hd c]))"

text \<open>Packages for the examples: \<open>mkPackage n ds\<close> is named \<open>n\<close> and lists \<open>ds\<close> as its runtime
  dependencies, \<open>mkDevPackage n ds es\<close> lists in addition \<open>es\<close> as development dependencies.\<close>

definition mkDevPackage :: "string \<Rightarrow> string list \<Rightarrow> string list \<Rightarrow> Package" where
  "mkDevPackage n ds es =
     \<lparr>name = n,
      manifest = \<lparr>dependencies = Some (map (\<lambda>d. (d, ''*'')) ds),
                  devDependencies = (if es = [] then None else Some (map (\<lambda>d. (d, ''*'')) es)),
                  peerDependencies = None\<rparr>\<rparr>"

definition mkPackage :: "string \<Rightarrow> string list \<Rightarrow> Package" where
  "mkPackage n ds = mkDevPackage n ds []"

section \<open>Notions used in the proofs about the graph builder\<close>

text \<open>The sum of the sizes of the entries, the dependency relation an object of entries
  stands for, and the invariant of the closure loop with respect to the graph \<open>g0\<close> it
  started from.\<close>

definition total_size :: "DepGraph \<Rightarrow> nat" where
  "total_size g = sum_list (map (\<lambda>(k, ds). length ds) g)"

definition edges :: "DepGraph \<Rightarrow> (string \<times> string) set" where
  "edges g = {(a, b). \<exists>ds. map_of g a = Some ds \<and> b \<in> set ds}"

definition wf_graph :: "DepGraph \<Rightarrow> bool" where
  "wf_graph g \<longleftrightarrow> distinct (map fst g) \<and>
     (\<forall>k ds. map_of g k = Some ds \<longrightarrow> distinct ds \<and> set ds \<subseteq> fst ` set g)"

definition closure_inv :: "DepGraph \<Rightarrow> DepGraph \<Rightarrow> bool" where
  "closure_inv g0 g \<longleftrightarrow> map fst g = map fst g0 \<and>
     (\<forall>k ds. map_of g k = Some ds \<longrightarrow> distinct ds) \<and>
     edges g0 \<subseteq> edges g \<and> edges g \<subseteq> (edges g0)\<^sup>+"

definition grows :: "DepGraph \<times> bool \<Rightarrow> DepGraph \<times> bool \<Rightarrow> bool" where
  "grows s s' \<longleftrightarrow> total_size (fst s) \<le> total_size (fst s') \<and>
     (total_size (fst s') = total_size (fst s) \<longrightarrow> fst s' = fst s) \<and>
     (snd s' = (snd s \<or> total_size (fst s) < total_size (fst s')))"


text \<open>The declared dependencies between workspace packages: \<open>a\<close> is a key of the package
  map, \<open>b\<close> is a name its package declares, and \<open>b\<close> is a key as well.\<close>

definition direct_edges :: "Package obj \<Rightarrow> (string \<times> string) set" where
  "direct_edges pm =
     {(a, b). \<exists>p. map_of pm a = Some p \<and> b \<in> set (declaredNames p) \<and> b \<in> fst ` set pm}"

section \<open>Notions used in the proofs about the scheduler\<close>

text \<open>In a sequence of events every start of a package comes after the completion of
  everything in the package's graph entry.\<close>

definition dependencies_first :: "DepGraph \<Rightarrow> event list \<Rightarrow> bool" where
  "dependencies_first g tr \<longleftrightarrow>
     (\<forall>pre A post B. tr = pre @ Started A # post \<and> depends_on g A B
        \<longrightarrow> (\<exists>s. Completed B s \<in> set pre))"

text \<open>The invariant of the ordered mode behind the ordering: a status \<open>finished\<close> has its
  completion among the events, and the events respect the graph.\<close>

definition order_inv :: "DepGraph \<Rightarrow> sched \<Rightarrow> bool" where
  "order_inv g st \<longleftrightarrow>
     (\<forall>B. map_of (status st) B = Some Finished \<longrightarrow> (\<exists>s. Completed B s \<in> set (trace st))) \<and>
     dependencies_first g (trace st)"


section \<open>Sets and objects: basic facts\<close>

lemma set_set_add: "set (set_add s x) = insert x (set s)"
  by (auto simp: set_add_def)

lemma distinct_set_add: "distinct s \<Longrightarrow> distinct (set_add s x)"
  by (simp add: set_add_def)

lemma length_set_add: "length s \<le> length (set_add s x)"
  by (simp add: set_add_def)

lemma add_all_Nil: "add_all s [] = s"
  by (simp add: add_all_def)

lemma add_all_Cons: "add_all s (x # xs) = add_all (set_add s x) xs"
  by (simp add: add_all_def)

lemma set_add_all: "set (add_all s xs) = set s \<union> set xs"
  by (induction xs arbitrary: s) (auto simp: add_all_Nil add_all_Cons set_set_add)

lemma distinct_add_all: "distinct s \<Longrightarrow> distinct (add_all s xs)"
  by (induction xs arbitrary: s) (auto simp: add_all_Nil add_all_Cons distinct_set_add)

lemma length_add_all: "length s \<le> length (add_all s xs)"
proof (induction xs arbitrary: s)
  case Nil
  show ?case by (simp add: add_all_Nil)
next
  case (Cons x xs)
  have "length s \<le> length (set_add s x)" by (rule length_set_add)
  also have "\<dots> \<le> length (add_all (set_add s x) xs)" by (rule Cons.IH)
  finally show ?case by (simp add: add_all_Cons)
qed

lemma add_all_subset: "set xs \<subseteq> set s \<Longrightarrow> add_all s xs = s"
  by (induction xs arbitrary: s) (auto simp: add_all_Nil add_all_Cons set_add_def)

lemma add_all_grows: "\<not> set xs \<subseteq> set s \<Longrightarrow> length s < length (add_all s xs)"
proof (induction xs arbitrary: s)
  case Nil
  then show ?case by simp
next
  case (Cons x xs)
  show ?case
  proof (cases "x \<in> set s")
    case True
    with Cons.prems have "\<not> set xs \<subseteq> set s" by auto
    from Cons.IH [OF this] True show ?thesis by (simp add: add_all_Cons set_add_def)
  next
    case False
    have "length s < length (set_add s x)" using False by (simp add: set_add_def)
    also have "\<dots> \<le> length (add_all (set_add s x) xs)" by (rule length_add_all)
    finally show ?thesis by (simp add: add_all_Cons)
  qed
qed

lemma add_all_same_length: "length (add_all s xs) = length s \<Longrightarrow> add_all s xs = s \<and> set xs \<subseteq> set s"
  using add_all_grows [of xs s] add_all_subset [of xs s] by force

lemma set_new_Set: "set (new_Set xs) = set xs"
  by (simp add: new_Set_def set_add_all)

lemma distinct_new_Set: "distinct (new_Set xs)"
  by (simp add: new_Set_def distinct_add_all)

lemma new_Set_distinct: "distinct xs \<Longrightarrow> new_Set xs = xs"
proof -
  have "distinct (s @ xs) \<Longrightarrow> add_all s xs = s @ xs" for s
    by (induction xs arbitrary: s) (auto simp: add_all_Nil add_all_Cons set_add_def)
  from this [of "[]"] show "distinct xs \<Longrightarrow> new_Set xs = xs" by (simp add: new_Set_def)
qed

lemma fold_obj_set_distinct:
  "distinct (map fst (acc @ ps)) \<Longrightarrow> fold (\<lambda>(k, v) obj. obj_set obj k v) ps acc = acc @ ps"
proof (induction ps arbitrary: acc)
  case Nil
  then show ?case by simp
next
  case (Cons p ps)
  obtain k v where p: "p = (k, v)" by (cases p)
  from Cons.prems p have "k \<notin> fst ` set acc" by auto
  then have "AList.update k v acc = acc @ [(k, v)]"
    by (induction acc) auto
  moreover from Cons.prems p have "distinct (map fst ((acc @ [(k, v)]) @ ps))" by simp
  ultimately show ?case using Cons.IH [of "acc @ [(k, v)]"] p by (simp add: obj_set_def)
qed

lemma fromPairs_distinct: "distinct (map fst ps) \<Longrightarrow> fromPairs ps = ps"
  using fold_obj_set_distinct [of "[]" ps] by (simp add: fromPairs_def)

lemma fold_obj_set_props:
  "distinct (map fst acc) \<Longrightarrow>
   distinct (map fst (fold (\<lambda>(k, v) obj. obj_set obj k v) ps acc)) \<and>
   set (map fst (fold (\<lambda>(k, v) obj. obj_set obj k v) ps acc)) = set (map fst acc) \<union> set (map fst ps) \<and>
   map_of (fold (\<lambda>(k, v) obj. obj_set obj k v) ps acc) = map_of acc ++ map_of (rev ps)"
proof (induction ps arbitrary: acc)
  case Nil
  then show ?case by simp
next
  case (Cons p ps)
  obtain k v where p: "p = (k, v)" by (cases p)
  have d: "distinct (map fst (AList.update k v acc))"
    using Cons.prems by (simp add: distinct_update)
  have m: "map_of (AList.update k v acc) = (map_of acc)(k \<mapsto> v)"
    by (simp add: update_conv')
  have s: "set (map fst (AList.update k v acc)) = insert k (set (map fst acc))"
    by (auto simp: update_keys)
  from Cons.IH [OF d] p m s show ?case
    by (auto simp: obj_set_def map_add_def fun_eq_iff split: option.splits)
qed

lemma fromPairs_props:
  "distinct (map fst (fromPairs ps))"
  "set (map fst (fromPairs ps)) = set (map fst ps)"
  "map_of (fromPairs ps) = map_of (rev ps)"
  using fold_obj_set_props [of "[]" ps] by (simp_all add: fromPairs_def)

section \<open>The closure loop of buildDepGraph\<close>

lemma grows_refl: "grows s s"
  by (simp add: grows_def)

lemma grows_trans: "grows s t \<Longrightarrow> grows t u \<Longrightarrow> grows s u"
proof -
  assume a: "grows s t" and b: "grows t u"
  obtain m1 m2 m3 where m: "m1 = total_size (fst s)" "m2 = total_size (fst t)" "m3 = total_size (fst u)"
    by simp
  from a m have a1: "m1 \<le> m2" and a2: "m2 = m1 \<Longrightarrow> fst t = fst s"
    and a3: "snd t = (snd s \<or> m1 < m2)"
    by (simp_all add: grows_def)
  from b m have b1: "m2 \<le> m3" and b2: "m3 = m2 \<Longrightarrow> fst u = fst t"
    and b3: "snd u = (snd t \<or> m2 < m3)"
    by (simp_all add: grows_def)
  have 1: "m1 \<le> m3" using a1 b1 by linarith
  have 2: "fst u = fst s" if "m3 = m1"
  proof -
    from that a1 b1 have "m2 = m1" "m3 = m2" by linarith+
    with a2 b2 show ?thesis by simp
  qed
  have "(m1 < m2 \<or> m2 < m3) = (m1 < m3)" using a1 b1 by linarith
  with a3 b3 have 3: "snd u = (snd s \<or> m1 < m3)" by blast
  from 1 2 3 m show ?thesis by (simp add: grows_def)
qed

lemma grows_same: "grows s s' \<Longrightarrow> total_size (fst s') = total_size (fst s) \<Longrightarrow> s' = s"
  by (auto simp: grows_def prod_eq_iff)

lemma total_size_update:
  "distinct (map fst g) \<Longrightarrow> map_of g k = Some a \<Longrightarrow>
   total_size (AList.update k a' g) + length a = total_size g + length a'"
  by (induction g) (auto simp: total_size_def)

lemma edges_update:
  "edges (AList.update k ds g) = {(a, b). (a, b) \<in> edges g \<and> a \<noteq> k} \<union> {k} \<times> set ds"
  by (auto simp: edges_def update_conv' split: if_splits)

lemma wf_graph_range: "wf_graph g \<Longrightarrow> (a, b) \<in> (edges g)\<^sup>+ \<Longrightarrow> b \<in> fst ` set g"
proof -
  assume wf: "wf_graph g" and ab: "(a, b) \<in> (edges g)\<^sup>+"
  from ab have "b \<in> Range ((edges g)\<^sup>+)" by (rule RangeI)
  then have "b \<in> Range (edges g)" by (simp only: trancl_range)
  then obtain c where "(c, b) \<in> edges g" by (rule RangeE)
  then obtain ds where ds: "map_of g c = Some ds" "b \<in> set ds"
    unfolding edges_def by blast
  from wf ds(1) have "set ds \<subseteq> fst ` set g" unfolding wf_graph_def by blast
  with ds(2) show ?thesis by blast
qed

lemma forEach_inv:
  assumes "I s"
    and step: "\<And>x s. x \<in> set xs \<Longrightarrow> I s \<Longrightarrow> \<exists>s'. f x s = Inr s' \<and> I s' \<and> Q s s'"
    and refl: "\<And>s. Q s s"
    and trans: "\<And>s t u. Q s t \<Longrightarrow> Q t u \<Longrightarrow> Q s u"
  shows "\<exists>s'. forEach xs f s = Inr s' \<and> I s' \<and> Q s s'"
  using assms(1,2)
proof (induction xs arbitrary: s)
  case Nil
  then show ?case by (simp add: refl)
next
  case (Cons x xs)
  from Cons.prems(2) [of x s] Cons.prems(1)
  obtain s1 where s1: "f x s = Inr s1" "I s1" "Q s s1" by auto
  have "\<exists>s'. forEach xs f s1 = Inr s' \<and> I s' \<and> Q s1 s'"
    by (rule Cons.IH [OF s1(2)]) (rule Cons.prems(2), simp_all)
  then obtain s' where "forEach xs f s1 = Inr s'" "I s'" "Q s1 s'" by auto
  with s1 show ?case by (auto intro: trans)
qed

lemma forEach_stable:
  assumes "I s"
    and step: "\<And>x s. x \<in> set xs \<Longrightarrow> I s \<Longrightarrow> \<exists>s'. f x s = Inr s' \<and> I s' \<and> grows s s'"
    and "forEach xs f s = Inr s'"
    and "total_size (fst s') = total_size (fst s)"
  shows "\<forall>x\<in>set xs. f x s = Inr s"
  using assms
proof (induction xs arbitrary: s)
  case Nil
  then show ?case by simp
next
  case (Cons x xs)
  from Cons.prems(2) [of x s] Cons.prems(1)
  obtain s1 where s1: "f x s = Inr s1" "I s1" "grows s s1" by auto
  have st: "\<And>y t. y \<in> set xs \<Longrightarrow> I t \<Longrightarrow> \<exists>t'. f y t = Inr t' \<and> I t' \<and> grows t t'"
    by (rule Cons.prems(2)) simp_all
  have "\<exists>t. forEach xs f s1 = Inr t \<and> I t \<and> grows s1 t"
    by (rule forEach_inv [where I = I, OF s1(2) st grows_refl grows_trans])
  with Cons.prems(3) s1(1) have r: "forEach xs f s1 = Inr s'" "grows s1 s'" by auto
  from s1(3) r(2) Cons.prems(4) have "total_size (fst s1) = total_size (fst s)"
    by (auto simp: grows_def)
  with s1(3) have eq: "s1 = s" by (rule grows_same)
  from Cons.IH [OF Cons.prems(1) st] r(1) Cons.prems(4) eq
  have "\<forall>y\<in>set xs. f y s = Inr s" by simp
  with s1(1) eq show ?case by simp
qed

lemma map_of_key: "k \<in> set (map fst g) \<Longrightarrow> \<exists>v. map_of g k = Some v"
proof -
  assume "k \<in> set (map fst g)"
  then have "k \<in> fst ` set g" by simp
  then have "map_of g k \<noteq> None" by (simp only: map_of_eq_None_iff not_not)
  then show ?thesis by (cases "map_of g k") simp_all
qed

lemma closure_invD:
  assumes "closure_inv g0 g"
  shows "map fst g = map fst g0" and "map_of g k = Some ds \<Longrightarrow> distinct ds"
    and "edges g0 \<subseteq> edges g" and "edges g \<subseteq> (edges g0)\<^sup>+"
proof -
  from assms have c: "map fst g = map fst g0 \<and>
     (\<forall>k ds. map_of g k = Some ds \<longrightarrow> distinct ds) \<and>
     edges g0 \<subseteq> edges g \<and> edges g \<subseteq> (edges g0)\<^sup>+"
    unfolding closure_inv_def .
  from c show "map fst g = map fst g0" by (elim conjE)
  from c have "\<forall>k ds. map_of g k = Some ds \<longrightarrow> distinct ds" by (elim conjE)
  then show "map_of g k = Some ds \<Longrightarrow> distinct ds" by fast
  from c show "edges g0 \<subseteq> edges g" by (elim conjE)
  from c show "edges g \<subseteq> (edges g0)\<^sup>+" by (elim conjE)
qed

lemma closure_invI:
  assumes "map fst g = map fst g0" and "\<And>k ds. map_of g k = Some ds \<Longrightarrow> distinct ds"
    and "edges g0 \<subseteq> edges g" and "edges g \<subseteq> (edges g0)\<^sup>+"
  shows "closure_inv g0 g"
  unfolding closure_inv_def using assms by (intro conjI allI impI)

lemma wf_graphD:
  assumes "wf_graph g"
  shows "distinct (map fst g)" and "map_of g k = Some ds \<Longrightarrow> distinct ds"
    and "map_of g k = Some ds \<Longrightarrow> set ds \<subseteq> fst ` set g"
proof -
  from assms have c: "distinct (map fst g) \<and>
     (\<forall>k ds. map_of g k = Some ds \<longrightarrow> distinct ds \<and> set ds \<subseteq> fst ` set g)"
    unfolding wf_graph_def .
  from c show "distinct (map fst g)" by (elim conjE)
  from c have a: "\<forall>k ds. map_of g k = Some ds \<longrightarrow> distinct ds \<and> set ds \<subseteq> fst ` set g"
    by (elim conjE)
  from a show "map_of g k = Some ds \<Longrightarrow> distinct ds" by fast
  from a show "map_of g k = Some ds \<Longrightarrow> set ds \<subseteq> fst ` set g" by fast
qed

lemma union_dep_step:
  assumes wf: "wf_graph g0" and inv: "closure_inv g0 g"
    and nm: "nm \<in> set (map fst g0)" and dep: "(nm, dep) \<in> (edges g0)\<^sup>+"
  shows "\<exists>s'. union_dep nm dep (g, ch) = Inr s' \<and> closure_inv g0 (fst s') \<and> grows (g, ch) s'"
proof -
  note keys = closure_invD(1) [OF inv] and dist = closure_invD(2) [OF inv]
    and lower = closure_invD(3) [OF inv] and upper = closure_invD(4) [OF inv]
  have "distinct (map fst g0)" by (rule wf_graphD(1) [OF wf])
  with keys have dg: "distinct (map fst g)" by simp
  from nm keys have nmg: "nm \<in> set (map fst g)" by (simp only:)
  from map_of_key [OF nmg] obtain a where a: "map_of g nm = Some a" ..
  from wf dep have "dep \<in> fst ` set g0" by (rule wf_graph_range)
  with keys have depg: "dep \<in> set (map fst g)" by (simp only: set_map)
  from map_of_key [OF depg] obtain b where b: "map_of g dep = Some b" ..
  define a' where "a' = add_all a b"
  define g' where "g' = AList.update nm a' g"
  have eq: "union_dep nm dep (g, ch) = Inr (g', length a < length a' \<or> ch)"
    by (simp add: union_dep_def obj_get_def obj_set_def union_def a b a'_def g'_def Let_def)
  have sa: "set a' = set a \<union> set b" by (simp add: a'_def set_add_all)
  have k': "map fst g' = map fst g0"
    using nmg keys by (simp add: g'_def update_keys)
  have m': "map_of g' = (map_of g)(nm \<mapsto> a')"
    by (simp add: g'_def update_conv')
  have d': "distinct ds" if "map_of g' k = Some ds" for k ds
  proof (cases "k = nm")
    case True
    with that m' have "ds = a'" by simp
    with dist [OF a] show ?thesis by (simp add: a'_def distinct_add_all)
  next
    case False
    with that m' have "map_of g k = Some ds" by simp
    then show ?thesis by (rule dist)
  qed
  have e': "edges g' = {(x, y). (x, y) \<in> edges g \<and> x \<noteq> nm} \<union> {nm} \<times> set a'"
    unfolding g'_def by (rule edges_update)
  have sub1: "edges g \<subseteq> edges g'"
  proof
    fix p assume p: "p \<in> edges g"
    obtain x y where xy: "p = (x, y)" by (cases p)
    show "p \<in> edges g'"
    proof (cases "x = nm")
      case True
      from p xy True a have "y \<in> set a" by (auto simp: edges_def)
      with sa True xy e' show ?thesis by simp
    next
      case False
      with p xy e' show ?thesis by simp
    qed
  qed
  have sub2: "edges g' \<subseteq> (edges g0)\<^sup>+"
  proof
    fix p assume p: "p \<in> edges g'"
    obtain x y where xy: "p = (x, y)" by (cases p)
    from p xy e' consider "(x, y) \<in> edges g" | "x = nm" "y \<in> set a" | "x = nm" "y \<in> set b"
      using sa by auto
    then show "p \<in> (edges g0)\<^sup>+"
    proof cases
      case 1
      with upper xy show ?thesis by (simp add: subsetD)
    next
      case 2
      with a have "(nm, y) \<in> edges g" by (auto simp: edges_def)
      with upper 2 xy show ?thesis by (simp add: subsetD)
    next
      case 3
      with b have "(dep, y) \<in> edges g" by (auto simp: edges_def)
      with upper have "(dep, y) \<in> (edges g0)\<^sup>+" by (rule subsetD)
      with dep have "(nm, y) \<in> (edges g0)\<^sup>+" by (rule trancl_trans)
      with 3 xy show ?thesis by simp
    qed
  qed
  from lower sub1 have "edges g0 \<subseteq> edges g'" by (rule subset_trans)
  with k' d' have inv': "closure_inv g0 g'"
    using sub2 by (rule closure_invI)
  have sz: "total_size g' + length a = total_size g + length a'"
    unfolding g'_def using dg a by (rule total_size_update)
  have le: "length a \<le> length a'" by (simp add: a'_def length_add_all)
  have same: "g' = g" if "total_size g' = total_size g"
  proof -
    from that sz have "length (add_all a b) = length a" by (simp add: a'_def)
    then have "a' = a" by (simp add: a'_def add_all_same_length)
    with a show ?thesis by (simp add: g'_def update_triv)
  qed
  have "(length a < length a') = (total_size g < total_size g')" using sz by linarith
  moreover have "total_size g \<le> total_size g'" using sz le by linarith
  ultimately have "grows (g, ch) (g', length a < length a' \<or> ch)"
    using same by (auto simp: grows_def)
  with eq inv' show ?thesis by simp
qed

lemma union_dep_fixed:
  assumes "union_dep nm dep (g, ch) = Inr (g, ch)" and "map_of g nm = Some a"
    and "map_of g dep = Some b" and "\<not> ch"
  shows "set b \<subseteq> set a"
proof -
  from assms have "\<not> length a < length (add_all a b)"
    by (simp add: union_dep_def obj_get_def union_def Let_def)
  with add_all_grows [of b a] show ?thesis by blast
qed

lemma close_name_step:
  assumes wf: "wf_graph g0" and inv: "closure_inv g0 (fst s)"
    and nm: "nm \<in> set (map fst g0)"
  shows "\<exists>s'. close_name nm s = Inr s' \<and> closure_inv g0 (fst s') \<and> grows s s'"
proof -
  obtain g ch where s: "s = (g, ch)" by (cases s)
  from inv s have invg: "closure_inv g0 g" by simp
  note keys = closure_invD(1) [OF invg] and upper = closure_invD(4) [OF invg]
  from nm keys have nmg: "nm \<in> set (map fst g)" by (simp only:)
  from map_of_key [OF nmg] obtain deps where deps: "map_of g nm = Some deps" ..
  have cn: "close_name nm s = forEach deps (union_dep nm) s"
    by (simp add: close_name_def s obj_get_def deps)
  have st: "\<exists>t'. union_dep nm dep t = Inr t' \<and> closure_inv g0 (fst t') \<and> grows t t'"
    if "dep \<in> set deps" "closure_inv g0 (fst t)" for dep t
  proof -
    from that(1) deps have "(nm, dep) \<in> edges g" by (auto simp: edges_def)
    with upper have "(nm, dep) \<in> (edges g0)\<^sup>+" by (rule subsetD)
    from union_dep_step [OF wf _ nm this, of "fst t" "snd t"] that(2) show ?thesis by simp
  qed
  have "\<exists>s'. forEach deps (union_dep nm) s = Inr s' \<and> closure_inv g0 (fst s') \<and> grows s s'"
    by (rule forEach_inv [where I = "\<lambda>t. closure_inv g0 (fst t)", OF inv st grows_refl grows_trans])
  with cn show ?thesis by simp
qed

lemma pass_step:
  assumes wf: "wf_graph g0" and inv: "closure_inv g0 g"
  shows "\<exists>s'. pass g = Inr s' \<and> closure_inv g0 (fst s') \<and> grows (g, False) s'"
proof -
  note keys = closure_invD(1) [OF inv]
  have st: "\<exists>t'. close_name nm t = Inr t' \<and> closure_inv g0 (fst t') \<and> grows t t'"
    if "nm \<in> set (Object_keys g)" "closure_inv g0 (fst t)" for nm t
  proof -
    from that(1) keys have "nm \<in> set (map fst g0)" by (simp add: Object_keys_def)
    from close_name_step [OF wf that(2) this] show ?thesis .
  qed
  from inv have i0: "closure_inv g0 (fst (g, False))" by simp
  have "\<exists>s'. forEach (Object_keys g) close_name (g, False) = Inr s' \<and> closure_inv g0 (fst s') \<and> grows (g, False) s'"
    by (rule forEach_inv [where I = "\<lambda>t. closure_inv g0 (fst t)", OF i0 st grows_refl grows_trans])
  then show ?thesis by (simp add: pass_def)
qed

lemma closure_inv_refl: "wf_graph g0 \<Longrightarrow> closure_inv g0 g0"
proof -
  assume wf: "wf_graph g0"
  show ?thesis
  proof (rule closure_invI)
    show "map fst g0 = map fst g0" ..
    show "\<And>k ds. map_of g0 k = Some ds \<Longrightarrow> distinct ds" by (rule wf_graphD(2) [OF wf])
    show "edges g0 \<subseteq> edges g0" ..
    show "edges g0 \<subseteq> (edges g0)\<^sup>+" by auto
  qed
qed

lemma closure_inv_entries:
  assumes wf: "wf_graph g0" and inv: "closure_inv g0 g" and m: "map_of g k = Some ds"
  shows "set ds \<subseteq> set (map fst g0)"
proof
  fix x assume "x \<in> set ds"
  with m have "(k, x) \<in> edges g" unfolding edges_def by fast
  with closure_invD(4) [OF inv] have "(k, x) \<in> (edges g0)\<^sup>+" by (rule subsetD)
  with wf have "x \<in> fst ` set g0" by (rule wf_graph_range)
  then show "x \<in> set (map fst g0)" by (simp only: set_map)
qed

lemma total_size_bound:
  assumes "\<And>k ds. (k, ds) \<in> set g \<Longrightarrow> length ds \<le> n"
  shows "total_size g \<le> length g * n"
  using assms
proof (induction g)
  case Nil
  show ?case by (simp add: total_size_def)
next
  case (Cons p g)
  obtain k ds where p: "p = (k, ds)" by (cases p)
  have "length ds \<le> n" by (rule Cons.prems [of k ds]) (simp add: p)
  moreover have "total_size g \<le> length g * n"
  proof (rule Cons.IH)
    fix k' ds' assume "(k', ds') \<in> set g"
    then have "(k', ds') \<in> set (p # g)" by simp
    then show "length ds' \<le> n" by (rule Cons.prems)
  qed
  moreover have "total_size (p # g) = length ds + total_size g"
    by (simp add: total_size_def p)
  ultimately show ?case by simp
qed

lemma closure_inv_bound:
  assumes wf: "wf_graph g0" and inv: "closure_inv g0 g"
  shows "total_size g \<le> length g0 * length g0"
proof -
  note keys = closure_invD(1) [OF inv]
  have dk: "distinct (map fst g)" using wf_graphD(1) [OF wf] keys by (simp only:)
  have "total_size g \<le> length g * length g0"
  proof (rule total_size_bound)
    fix k ds assume "(k, ds) \<in> set g"
    with dk have m: "map_of g k = Some ds" by (rule map_of_is_SomeI)
    have d: "distinct ds" by (rule closure_invD(2) [OF inv m])
    have "set ds \<subseteq> set (map fst g0)" by (rule closure_inv_entries [OF wf inv m])
    then have "card (set ds) \<le> card (set (map fst g0))" by (simp add: card_mono)
    also have "\<dots> \<le> length (map fst g0)" by (rule card_length)
    finally show "length ds \<le> length g0" using d by (simp add: distinct_card)
  qed
  moreover have "length g = length g0"
  proof -
    have "length (map fst g) = length (map fst g0)" by (simp only: keys)
    then show ?thesis by simp
  qed
  ultimately show ?thesis by simp
qed

lemma fixpoint_terminates:
  assumes wf: "wf_graph g0" and inv: "closure_inv g0 g"
  shows "\<exists>g'. fixpoint g = Some (Inr g') \<and> closure_inv g0 g' \<and> pass g' = Inr (g', False)"
  using inv
proof (induction "length g0 * length g0 - total_size g" arbitrary: g rule: less_induct)
  case less
  from pass_step [OF wf less.prems] obtain s' where
    s': "pass g = Inr s'" "closure_inv g0 (fst s')" "grows (g, False) s'" by (elim exE conjE)
  obtain g' ch where gc: "s' = (g', ch)" by (cases s')
  show ?case
  proof (cases ch)
    case False
    with s'(3) gc have "total_size g' = total_size g"
      by (simp add: grows_def)
    with s'(3) gc have "s' = (g, False)" using grows_same [of "(g, False)" s'] by simp
    with s'(1) have p: "pass g = Inr (g, False)" by simp
    then have "fixpoint g = Some (Inr g)" by (subst fixpoint.simps) simp
    with p less.prems show ?thesis by simp
  next
    case True
    with s'(3) gc have lt: "total_size g < total_size g'" by (simp add: grows_def)
    from s'(2) gc have inv': "closure_inv g0 g'" by simp
    from closure_inv_bound [OF wf inv'] lt
    have "length g0 * length g0 - total_size g' < length g0 * length g0 - total_size g"
      by linarith
    from less.hyps [OF this inv'] obtain g'' where
      r: "fixpoint g' = Some (Inr g'')" "closure_inv g0 g''" "pass g'' = Inr (g'', False)"
      by (elim exE conjE)
    from s'(1) gc True have "fixpoint g = fixpoint g'" by (subst fixpoint.simps) simp
    with r show ?thesis by simp
  qed
qed

lemma pass_fixed_closed:
  assumes wf: "wf_graph g0" and inv: "closure_inv g0 g" and p: "pass g = Inr (g, False)"
  shows "trans (edges g)"
proof (rule transI)
  fix x y z assume xy: "(x, y) \<in> edges g" and yz: "(y, z) \<in> edges g"
  from xy obtain a where a: "map_of g x = Some a" "y \<in> set a" unfolding edges_def by fast
  from yz obtain b where b: "map_of g y = Some b" "z \<in> set b" unfolding edges_def by fast
  note keys = closure_invD(1) [OF inv]
  from a(1) have xk: "x \<in> set (Object_keys g)"
    unfolding Object_keys_def by (simp only: set_map) (rule map_of_SomeD [THEN imageI [where f = fst], simplified])
  have i0: "closure_inv g0 (fst (g, False))" using inv by simp
  have st1: "\<exists>t'. close_name nm t = Inr t' \<and> closure_inv g0 (fst t') \<and> grows t t'"
    if "nm \<in> set (Object_keys g)" "closure_inv g0 (fst t)" for nm t
  proof -
    from that(1) keys have "nm \<in> set (map fst g0)" by (simp add: Object_keys_def)
    from close_name_step [OF wf that(2) this] show ?thesis .
  qed
  from p have fe: "forEach (Object_keys g) close_name (g, False) = Inr (g, False)"
    by (simp add: pass_def)
  have "\<forall>nm\<in>set (Object_keys g). close_name nm (g, False) = Inr (g, False)"
    by (rule forEach_stable [where I = "\<lambda>t. closure_inv g0 (fst t)", OF i0 st1 fe]) simp_all
  then have "close_name x (g, False) = Inr (g, False)" using xk by (rule bspec)
  with a(1) have fe2: "forEach a (union_dep x) (g, False) = Inr (g, False)"
    by (simp add: close_name_def obj_get_def)
  from xk keys have xk0: "x \<in> set (map fst g0)" by (simp add: Object_keys_def)
  have st2: "\<exists>t'. union_dep x dep t = Inr t' \<and> closure_inv g0 (fst t') \<and> grows t t'"
    if "dep \<in> set a" "closure_inv g0 (fst t)" for dep t
  proof -
    from that(1) a(1) have "(x, dep) \<in> edges g" unfolding edges_def by fast
    with closure_invD(4) [OF inv] have "(x, dep) \<in> (edges g0)\<^sup>+" by (rule subsetD)
    from union_dep_step [OF wf _ xk0 this, of "fst t" "snd t"] that(2) show ?thesis by simp
  qed
  have "\<forall>dep\<in>set a. union_dep x dep (g, False) = Inr (g, False)"
    by (rule forEach_stable [where I = "\<lambda>t. closure_inv g0 (fst t)", OF i0 st2 fe2]) simp_all
  then have "union_dep x y (g, False) = Inr (g, False)" using a(2) by (rule bspec)
  from union_dep_fixed [OF this a(1) b(1)] have "set b \<subseteq> set a" by simp
  with b(2) have "z \<in> set a" by (rule subsetD [rotated])
  with a(1) show "(x, z) \<in> edges g" unfolding edges_def by fast
qed

lemma fixpoint_closure:
  assumes wf: "wf_graph g0"
  shows "\<exists>g. fixpoint g0 = Some (Inr g) \<and> map fst g = map fst g0 \<and>
           (\<forall>k ds. map_of g k = Some ds \<longrightarrow> distinct ds) \<and> edges g = (edges g0)\<^sup>+"
proof -
  from fixpoint_terminates [OF wf closure_inv_refl [OF wf]] obtain g where
    g: "fixpoint g0 = Some (Inr g)" "closure_inv g0 g" "pass g = Inr (g, False)"
    by (elim exE conjE)
  have tr: "trans (edges g)" by (rule pass_fixed_closed [OF wf g(2) g(3)])
  have "(edges g0)\<^sup>+ \<subseteq> (edges g)\<^sup>+" by (rule trancl_mono_subset [OF closure_invD(3) [OF g(2)]])
  also have "(edges g)\<^sup>+ = edges g" using tr by (rule trancl_id)
  finally have "(edges g0)\<^sup>+ \<subseteq> edges g" .
  with closure_invD(4) [OF g(2)] have e: "edges g = (edges g0)\<^sup>+" by (rule subset_antisym)
  have d: "\<forall>k ds. map_of g k = Some ds \<longrightarrow> distinct ds"
    using closure_invD(2) [OF g(2)] by fast
  from g(1) closure_invD(1) [OF g(2)] d e show ?thesis by (intro exI conjI)
qed

lemma mapE_total: "(\<And>x. x \<in> set xs \<Longrightarrow> f x = Inr (h x)) \<Longrightarrow> mapE xs f = Inr (map h xs)"
  by (induction xs) simp_all

lemma entries_of_keys:
  "distinct (map fst g) \<Longrightarrow> map (\<lambda>k. (k, the (map_of g k))) (map fst g) = g"
proof (induction g)
  case Nil
  show ?case by simp
next
  case (Cons p g)
  obtain k v where p: "p = (k, v)" by (cases p)
  from Cons.prems p have kn: "k \<notin> fst ` set g" and dg: "distinct (map fst g)" by simp_all
  have "map (\<lambda>k'. (k', the (map_of (p # g) k'))) (map fst g) =
        map (\<lambda>k'. (k', the (map_of g k'))) (map fst g)"
  proof (rule map_cong [OF refl])
    fix k' assume "k' \<in> set (map fst g)"
    with kn have "k' \<noteq> k" by auto
    then show "(k', the (map_of (p # g) k')) = (k', the (map_of g k'))" by (simp add: p)
  qed
  also have "\<dots> = g" by (rule Cons.IH [OF dg])
  finally show ?case by (simp add: p)
qed

lemma mapE_entries:
  assumes "distinct (map fst g)"
  shows "mapE (Object_keys g) (\<lambda>nm. case obj_get g nm of None \<Rightarrow> Inl TypeError
                                     | Some ds \<Rightarrow> Inr (nm, ds)) = Inr g"
proof -
  have "mapE (Object_keys g) (\<lambda>nm. case obj_get g nm of None \<Rightarrow> Inl TypeError
                                     | Some ds \<Rightarrow> Inr (nm, ds))
        = Inr (map (\<lambda>k. (k, the (map_of g k))) (Object_keys g))"
  proof (rule mapE_total)
    fix x assume "x \<in> set (Object_keys g)"
    then have "x \<in> set (map fst g)" by (simp only: Object_keys_def)
    from map_of_key [OF this] obtain v where "map_of g x = Some v" ..
    then show "(case obj_get g x of None \<Rightarrow> Inl TypeError | Some ds \<Rightarrow> Inr (x, ds)) =
               Inr (x, the (map_of g x))"
      by (simp add: obj_get_def)
  qed
  with entries_of_keys [OF assms] show ?thesis by (simp add: Object_keys_def)
qed

lemma map_of_tabulate:
  "map_of (map (\<lambda>k. (k, f k)) xs) k = (if k \<in> set xs then Some (f k) else None)"
  by (induction xs) simp_all

lemma buildDepGraph_closure:
  "\<exists>g. buildDepGraph pm = Some (Inr g) \<and> map fst g = new_Set (map fst pm) \<and>
        (\<forall>k ds. map_of g k = Some ds \<longrightarrow> distinct ds) \<and>
        edges g = (direct_edges pm)\<^sup>+"
proof -
  define rs where "rs = new_Set (Object_keys pm)"
  define h where "h = (\<lambda>nm. (nm, internalDeps rs (the (map_of pm nm))))"
  define g0 where "g0 = map h rs"
  have drs: "distinct rs" by (simp add: rs_def distinct_new_Set)
  have srs: "set rs = fst ` set pm" by (simp add: rs_def set_new_Set Object_keys_def)
  have k0: "map fst g0 = rs" by (simp add: g0_def h_def comp_def)
  have m1: "mapE rs (\<lambda>nm. case obj_get pm nm of None \<Rightarrow> Inl TypeError
                               | Some pkg \<Rightarrow> Inr (nm, internalDeps rs pkg)) = Inr g0"
    unfolding g0_def
  proof (rule mapE_total)
    fix x assume "x \<in> set rs"
    with srs have "x \<in> set (map fst pm)" by simp
    from map_of_key [OF this] obtain v where "map_of pm x = Some v" ..
    then show "(case obj_get pm x of None \<Rightarrow> Inl TypeError
                | Some pkg \<Rightarrow> Inr (x, internalDeps rs pkg)) = Inr (h x)"
      by (simp add: obj_get_def h_def)
  qed
  have fp: "fromPairs g0 = g0" by (rule fromPairs_distinct) (simp only: k0 drs)
  have m0: "map_of g0 k = (if k \<in> set rs then Some (internalDeps rs (the (map_of pm k))) else None)" for k
    unfolding g0_def h_def by (rule map_of_tabulate)
  have wf: "wf_graph g0"
    unfolding wf_graph_def
  proof (intro conjI allI impI)
    show "distinct (map fst g0)" by (simp only: k0 drs)
  next
    fix k ds assume "map_of g0 k = Some ds"
    with m0 [of k] have ds: "ds = internalDeps rs (the (map_of pm k))"
      by (simp split: if_splits)
    show "distinct ds" by (simp add: ds internalDeps_def distinct_new_Set)
    have "set ds \<subseteq> set rs" by (auto simp: ds internalDeps_def set_new_Set)
    also have "set rs = fst ` set g0" using k0 by (metis set_map)
    finally show "set ds \<subseteq> fst ` set g0" .
  qed
  have e0: "edges g0 = direct_edges pm"
  proof -
    have "((a, b) \<in> edges g0) = ((a, b) \<in> direct_edges pm)" for a b
    proof (cases "a \<in> set rs")
      case True
      with srs have "a \<in> set (map fst pm)" by simp
      from map_of_key [OF this] obtain p where p: "map_of pm a = Some p" ..
      from True p show ?thesis
        by (simp add: edges_def direct_edges_def m0 internalDeps_def set_new_Set srs)
    next
      case False
      with srs have "a \<notin> fst ` set pm" by simp
      then have "map_of pm a = None" by (simp add: map_of_eq_None_iff)
      with False show ?thesis by (simp add: edges_def direct_edges_def m0)
    qed
    then show ?thesis by auto
  qed
  from fixpoint_closure [OF wf] obtain g where
    g: "fixpoint g0 = Some (Inr g)" "map fst g = map fst g0"
       "\<forall>k ds. map_of g k = Some ds \<longrightarrow> distinct ds" "edges g = (edges g0)\<^sup>+"
    by (elim exE conjE)
  from g(2) k0 drs have dg: "distinct (map fst g)" by simp
  have fg: "fromPairs g = g" by (rule fromPairs_distinct [OF dg])
  have b: "buildDepGraph pm = Some (Inr g)"
    unfolding buildDepGraph_def Let_def rs_def [symmetric]
    by (simp add: m1 fp g(1) mapE_entries [OF dg] fg)
  have k: "map fst g = new_Set (map fst pm)"
    using g(2) k0 by (simp add: rs_def Object_keys_def)
  have e: "edges g = (direct_edges pm)\<^sup>+" using g(4) e0 by (simp only:)
  from b k g(3) e show ?thesis by (intro exI conjI)
qed

lemma edges_depends_on: "((a, b) \<in> edges g) = depends_on g a b"
  by (simp add: edges_def depends_on_def obj_get_def split: option.splits)

lemma direct_edges_declares: "((a, b) \<in> direct_edges pm) = declares pm a b"
  by (simp add: direct_edges_def declares_def obj_get_def Object_keys_def split: option.splits)

lemma new_Workspace_props:
  "\<exists>ws. new_Workspace ps = Some (Inr ws) \<and> packages ws = ps \<and>
         pkgMap ws = fromPairs (map (\<lambda>p. (name p, p)) ps) \<and>
         distinct (map fst (pkgMap ws)) \<and>
         map fst (depGraph ws) = map fst (pkgMap ws) \<and>
         (\<forall>k ds. map_of (depGraph ws) k = Some ds \<longrightarrow> distinct ds) \<and>
         edges (depGraph ws) = (direct_edges (pkgMap ws))\<^sup>+"
proof -
  define pm where "pm = fromPairs (map (\<lambda>p. (name p, p)) ps)"
  have dpm: "distinct (map fst pm)" unfolding pm_def by (rule fromPairs_props(1))
  from buildDepGraph_closure [of pm] obtain g where
    g: "buildDepGraph pm = Some (Inr g)" "map fst g = new_Set (map fst pm)"
       "\<forall>k ds. map_of g k = Some ds \<longrightarrow> distinct ds" "edges g = (direct_edges pm)\<^sup>+"
    by (elim exE conjE)
  define ws where "ws = \<lparr>packages = ps, pkgMap = pm, depGraph = g\<rparr>"
  have 1: "new_Workspace ps = Some (Inr ws)"
    by (simp add: new_Workspace_def Let_def pm_def [symmetric] g(1) ws_def)
  have 2: "packages ws = ps" by (simp add: ws_def)
  have 3: "pkgMap ws = fromPairs (map (\<lambda>p. (name p, p)) ps)" by (simp add: ws_def pm_def)
  have 4: "distinct (map fst (pkgMap ws))" using dpm by (simp add: ws_def)
  have 5: "map fst (depGraph ws) = map fst (pkgMap ws)"
    using g(2) new_Set_distinct [OF dpm] by (simp add: ws_def)
  have 6: "\<forall>k ds. map_of (depGraph ws) k = Some ds \<longrightarrow> distinct ds"
    unfolding ws_def using g(3) by (simp only: Workspace.simps)
  have 7: "edges (depGraph ws) = (direct_edges (pkgMap ws))\<^sup>+"
    unfolding ws_def using g(4) by (simp only: Workspace.simps)
  from 1 2 3 4 5 6 7 show ?thesis by (intro exI conjI)
qed

text \<open>The equations that evaluate the model on a concrete workspace.\<close>

lemmas graph_eval =
  new_Workspace_def buildDepGraph_def fromPairs_def obj_set_def obj_get_def Object_keys_def
  new_Set_def add_all_def set_add_def internalDeps_def declaredNames_def mkPackage_def
  mkDevPackage_def fixpoint.simps pass_def close_name_def union_dep_def union_def
  depends_on_def declares_def cycle_def

lemma direct_edges_range: "(a, b) \<in> (direct_edges pm)\<^sup>+ \<Longrightarrow> b \<in> fst ` set pm"
proof -
  assume ab: "(a, b) \<in> (direct_edges pm)\<^sup>+"
  from ab have "b \<in> Range ((direct_edges pm)\<^sup>+)" by (rule RangeI)
  then have "b \<in> Range (direct_edges pm)" by (simp only: trancl_range)
  then obtain c where "(c, b) \<in> direct_edges pm" by (rule RangeE)
  then have "\<exists>p. map_of pm c = Some p \<and> b \<in> set (declaredNames p) \<and> b \<in> fst ` set pm"
    unfolding direct_edges_def by simp
  then show ?thesis by (elim exE conjE)
qed

lemma direct_edges_first: "(a, b) \<in> (direct_edges pm)\<^sup>+ \<Longrightarrow> \<exists>z. (a, z) \<in> direct_edges pm"
proof -
  assume "(a, b) \<in> (direct_edges pm)\<^sup>+"
  then obtain z where "(a, z) \<in> direct_edges pm" "(z, b) \<in> (direct_edges pm)\<^sup>*"
    by (rule tranclD [THEN exE]) (elim conjE)
  then show ?thesis by (intro exI)
qed

lemma pkgMap_names:
  "set (map fst (fromPairs (map (\<lambda>p. (name p, p)) ps))) = name ` set ps"
proof -
  have "set (map fst (fromPairs (map (\<lambda>p. (name p, p)) ps))) =
        set (map fst (map (\<lambda>p. (name p, p)) ps))"
    by (rule fromPairs_props(2))
  also have "\<dots> = name ` set ps" by (simp add: comp_def)
  finally show ?thesis .
qed

lemma pkgMap_distinct_names:
  assumes "distinct (map name ps)" and "p \<in> set ps"
  shows "map_of (fromPairs (map (\<lambda>p. (name p, p)) ps)) (name p) = Some p"
proof -
  have d: "distinct (map fst (map (\<lambda>p. (name p, p)) ps))" using assms(1) by (simp add: comp_def)
  then have "fromPairs (map (\<lambda>p. (name p, p)) ps) = map (\<lambda>p. (name p, p)) ps"
    by (rule fromPairs_distinct)
  moreover have "(name p, p) \<in> set (map (\<lambda>p. (name p, p)) ps)" using assms(2) by simp
  with d have "map_of (map (\<lambda>p. (name p, p)) ps) (name p) = Some p" by (rule map_of_is_SomeI)
  ultimately show ?thesis by simp
qed

lemma chain_tl: "chain r (x # xs) \<Longrightarrow> chain r xs"
  by (cases xs) simp_all

lemma chain_suffix: "chain r (xs @ ys) \<Longrightarrow> chain r ys"
proof (induction xs)
  case Nil
  then show ?case by simp
next
  case (Cons x xs)
  from Cons.prems have "chain r (x # (xs @ ys))" by simp
  then have "chain r (xs @ ys)" by (rule chain_tl)
  then show ?case by (rule Cons.IH)
qed

lemma chain_reach: "chain r (x # xs) \<Longrightarrow> y \<in> set xs \<Longrightarrow> (x, y) \<in> {(a, b). r a b}\<^sup>+"
proof (induction xs arbitrary: x)
  case Nil
  then show ?case by simp
next
  case (Cons z zs)
  from Cons.prems(1) have xz: "(x, z) \<in> {(a, b). r a b}" and ch: "chain r (z # zs)" by simp_all
  show ?case
  proof (cases "y = z")
    case True
    with xz show ?thesis by (simp only: r_into_trancl)
  next
    case False
    with Cons.prems(2) have "y \<in> set zs" by simp
    with ch have "(z, y) \<in> {(a, b). r a b}\<^sup>+" by (rule Cons.IH)
    with xz show ?thesis by (rule trancl_into_trancl2)
  qed
qed

lemma cycle_members:
  assumes c: "cycle pm c" and a: "a \<in> set c" and b: "b \<in> set c"
  shows "(a, b) \<in> (direct_edges pm)\<^sup>+"
proof -
  have de: "direct_edges pm = {(a, b). declares pm a b}"
    using direct_edges_declares [of _ _ pm] by auto
  from c have ne: "c \<noteq> []" and ch: "chain (declares pm) (c @ [hd c])"
    by (simp_all add: cycle_def)
  from ne obtain h t where ht: "c = h # t" by (cases c) simp_all
  from ch ht have ch': "chain (declares pm) (h # (t @ [h]))" by simp
  have hb: "(h, b) \<in> (direct_edges pm)\<^sup>+"
  proof -
    from b ht have "b \<in> set (t @ [h])" by auto
    with ch' show ?thesis unfolding de by (rule chain_reach)
  qed
  have ah: "(a, h) \<in> (direct_edges pm)\<^sup>+"
  proof -
    from a obtain pre post where sp: "c = pre @ a # post" by (auto dest: split_list)
    have "hd c = h" by (simp add: ht)
    with ch have c1: "chain (declares pm) (c @ [h])" by simp
    have "c @ [h] = pre @ (a # (post @ [h]))" by (simp add: sp)
    with c1 have "chain (declares pm) (pre @ (a # (post @ [h])))" by simp
    then have "chain (declares pm) (a # (post @ [h]))" by (rule chain_suffix)
    moreover have "h \<in> set (post @ [h])" by simp
    ultimately show ?thesis unfolding de by (rule chain_reach)
  qed
  from ah hb show ?thesis by (rule trancl_trans)
qed

lemma depgraph_entry_set:
  assumes "map_of g a = Some ds"
  shows "set ds = {b. (a, b) \<in> edges g}"
  using assms by (simp add: edges_def)

lemma direct_edges_cong:
  assumes "map_of pm1 = map_of pm2" and "fst ` set pm1 = fst ` set pm2"
  shows "direct_edges pm1 = direct_edges pm2"
  unfolding direct_edges_def by (simp only: assms)

lemmas run_eval =
  load_runPackages_def load_run_def Workspace_run_def runPackages_def parallel_run_def
  ordered_run_def complete_next_def complete_def start_run_def runTasks_def start_task_def
  canExecute_def resolve_def reject_def dependencyClosure_def closure_loop.simps
  closure_pass_def add_deps_def succeeds_def fails_on_def

lemma forEach_fixed:
  fixes m :: "'s \<Rightarrow> nat"
  assumes "I s"
    and step: "\<And>x s. x \<in> set xs \<Longrightarrow> I s \<Longrightarrow>
           \<exists>s'. f x s = Inr s' \<and> I s' \<and> (m s \<le> m s' \<and> (m s' = m s \<longrightarrow> s' = s))"
    and "forEach xs f s = Inr s'"
    and "m s' = m s"
  shows "\<forall>x\<in>set xs. f x s = Inr s"
  using assms
proof (induction xs arbitrary: s)
  case Nil
  then show ?case by simp
next
  case (Cons x xs)
  let ?Q = "\<lambda>s s'. m s \<le> m s' \<and> (m s' = m s \<longrightarrow> s' = s)"
  from Cons.prems(2) [of x s] Cons.prems(1)
  obtain s1 where s1: "f x s = Inr s1" "I s1" "m s \<le> m s1" "m s1 = m s \<longrightarrow> s1 = s" by auto
  have st: "\<And>y t. y \<in> set xs \<Longrightarrow> I t \<Longrightarrow> \<exists>t'. f y t = Inr t' \<and> I t' \<and> ?Q t t'"
  proof -
    fix y t assume "y \<in> set xs" "I t"
    then have "y \<in> set (x # xs)" "I t" by simp_all
    then show "\<exists>t'. f y t = Inr t' \<and> I t' \<and> ?Q t t'" by (rule Cons.prems(2))
  qed
  have "\<exists>t. forEach xs f s1 = Inr t \<and> I t \<and> ?Q s1 t"
  proof (rule forEach_inv [where I = I and Q = ?Q, OF s1(2) st])
    show "\<And>s. ?Q s s" by simp
    show "\<And>s t u. ?Q s t \<Longrightarrow> ?Q t u \<Longrightarrow> ?Q s u" by auto
  qed simp_all
  with Cons.prems(3) s1(1) have r: "forEach xs f s1 = Inr s'" "m s1 \<le> m s'" by auto
  from s1(3) r(2) Cons.prems(4) have "m s1 = m s" by linarith
  with s1(4) have eq: "s1 = s" by simp
  from Cons.IH [OF Cons.prems(1) st] r(1) Cons.prems(4) eq
  have "\<forall>y\<in>set xs. f y s = Inr s" by simp
  with s1(1) eq show ?case by simp
qed

lemma length_le_keys:
  assumes "distinct t" and "set t \<subseteq> set ks"
  shows "length t \<le> length ks"
proof -
  from assms(1) have "length t = card (set t)" by (simp add: distinct_card)
  also from assms(2) have "\<dots> \<le> card (set ks)" by (simp add: card_mono)
  also have "\<dots> \<le> length ks" by (rule card_length)
  finally show ?thesis .
qed

lemma add_deps_step:
  assumes ek: "\<And>k ds. map_of g k = Some ds \<Longrightarrow> set ds \<subseteq> set (map fst g)"
    and p: "p \<in> set (map fst g)" and I: "distinct t \<and> set t \<subseteq> set (map fst g)"
  shows "\<exists>t'. add_deps g p t = Inr t' \<and> (distinct t' \<and> set t' \<subseteq> set (map fst g)) \<and>
           (length t \<le> length t' \<and> set t \<subseteq> set t' \<and> (length t' = length t \<longrightarrow> t' = t))"
proof -
  from map_of_key [OF p] obtain ds where ds: "map_of g p = Some ds" ..
  have eq: "add_deps g p t = Inr (add_all t ds)" by (simp add: add_deps_def obj_get_def ds)
  have 1: "distinct (add_all t ds)" using I by (simp add: distinct_add_all)
  have 2: "set (add_all t ds) \<subseteq> set (map fst g)" using I ek [OF ds] by (simp add: set_add_all)
  have 3: "length t \<le> length (add_all t ds)" by (rule length_add_all)
  have 4: "set t \<subseteq> set (add_all t ds)" by (simp add: set_add_all)
  have 5: "length (add_all t ds) = length t \<longrightarrow> add_all t ds = t"
    by (simp add: add_all_same_length)
  from eq 1 2 3 4 5 show ?thesis by simp
qed

lemma closure_pass_step:
  assumes ek: "\<And>k ds. map_of g k = Some ds \<Longrightarrow> set ds \<subseteq> set (map fst g)"
    and d: "distinct s" and sk: "set s \<subseteq> set (map fst g)"
  shows "\<exists>s'. closure_pass g s = Inr s' \<and> distinct s' \<and> set s' \<subseteq> set (map fst g) \<and>
           length s \<le> length s' \<and> set s \<subseteq> set s' \<and>
           (length s' = length s \<longrightarrow>
              s' = s \<and> (\<forall>p ds. p \<in> set s \<and> map_of g p = Some ds \<longrightarrow> set ds \<subseteq> set s))"
proof -
  let ?I = "\<lambda>t. distinct t \<and> set t \<subseteq> set (map fst g)"
  let ?Q = "\<lambda>t t'. length t \<le> length t' \<and> set t \<subseteq> set t' \<and> (length t' = length t \<longrightarrow> t' = t)"
  have i0: "?I s" using d sk by simp
  have st: "\<exists>t'. add_deps g x t = Inr t' \<and> ?I t' \<and> ?Q t t'" if "x \<in> set s" "?I t" for x t
  proof -
    from sk that(1) have xk: "x \<in> set (map fst g)" by (rule subsetD)
    have "\<exists>t'. add_deps g x t = Inr t' \<and> (distinct t' \<and> set t' \<subseteq> set (map fst g)) \<and>
           (length t \<le> length t' \<and> set t \<subseteq> set t' \<and> (length t' = length t \<longrightarrow> t' = t))"
    proof (rule add_deps_step)
      fix k ds assume "map_of g k = Some ds"
      then show "set ds \<subseteq> set (map fst g)" by (rule ek)
    next
      show "x \<in> set (map fst g)" by (rule xk)
    next
      show "distinct t \<and> set t \<subseteq> set (map fst g)" by (rule that(2))
    qed
    then show ?thesis .
  qed
  have "\<exists>s'. forEach s (add_deps g) s = Inr s' \<and> ?I s' \<and> ?Q s s'"
  proof (rule forEach_inv [where I = ?I and Q = ?Q, OF i0 st])
    show "\<And>s. ?Q s s" by simp
    show "\<And>s t u. ?Q s t \<Longrightarrow> ?Q t u \<Longrightarrow> ?Q s u" by auto
  qed simp_all
  then obtain s' where s': "forEach s (add_deps g) s = Inr s'" "?I s'" "?Q s s'"
    by (elim exE conjE) simp
  have fixed: "\<forall>p ds. p \<in> set s \<and> map_of g p = Some ds \<longrightarrow> set ds \<subseteq> set s"
    if len: "length s' = length s"
  proof (intro allI impI, elim conjE)
    fix p ds assume p: "p \<in> set s" and ds: "map_of g p = Some ds"
    have st2: "\<exists>t'. add_deps g x t = Inr t' \<and> ?I t' \<and>
        (length t \<le> length t' \<and> (length t' = length t \<longrightarrow> t' = t))"
      if "x \<in> set s" "?I t" for x t
      using st [OF that] by auto
    have "\<forall>x\<in>set s. add_deps g x s = Inr s"
      by (rule forEach_fixed [where I = ?I and m = length, OF i0 st2 s'(1) len]) simp_all
    then have "add_deps g p s = Inr s" using p by (rule bspec)
    with ds have "add_all s ds = s" by (simp add: add_deps_def obj_get_def)
    then have "length (add_all s ds) = length s" by simp
    then show "set ds \<subseteq> set s" by (simp add: add_all_same_length)
  qed
  from s' fixed show ?thesis by (simp add: closure_pass_def)
qed

lemma closure_loop_result:
  assumes ek: "\<And>k ds. map_of g k = Some ds \<Longrightarrow> set ds \<subseteq> set (map fst g)"
    and d: "distinct s" and sk: "set s \<subseteq> set (map fst g)"
  shows "\<exists>s'. closure_loop g s = Some (Inr s') \<and> distinct s' \<and> set s \<subseteq> set s' \<and>
           set s' \<subseteq> set (map fst g) \<and>
           (\<forall>p ds. p \<in> set s' \<and> map_of g p = Some ds \<longrightarrow> set ds \<subseteq> set s')"
  using d sk
proof (induction "length (map fst g) - length s" arbitrary: s rule: less_induct)
  case less
  have "\<exists>s'. closure_pass g s = Inr s' \<and> distinct s' \<and> set s' \<subseteq> set (map fst g) \<and>
           length s \<le> length s' \<and> set s \<subseteq> set s' \<and>
           (length s' = length s \<longrightarrow>
              s' = s \<and> (\<forall>p ds. p \<in> set s \<and> map_of g p = Some ds \<longrightarrow> set ds \<subseteq> set s))"
  proof (rule closure_pass_step)
    fix k ds assume "map_of g k = Some ds"
    then show "set ds \<subseteq> set (map fst g)" by (rule ek)
  next
    show "distinct s" by (rule less.prems(1))
  next
    show "set s \<subseteq> set (map fst g)" by (rule less.prems(2))
  qed
  then obtain s1 where
    s1: "closure_pass g s = Inr s1" "distinct s1" "set s1 \<subseteq> set (map fst g)"
        "length s \<le> length s1" "set s \<subseteq> set s1"
        "length s1 = length s \<longrightarrow>
              s1 = s \<and> (\<forall>p ds. p \<in> set s \<and> map_of g p = Some ds \<longrightarrow> set ds \<subseteq> set s)"
    by (elim exE conjE)
  show ?case
  proof (cases "length s1 = length s")
    case True
    with s1(6) have eq: "s1 = s"
      and cl: "\<forall>p ds. p \<in> set s \<and> map_of g p = Some ds \<longrightarrow> set ds \<subseteq> set s" by simp_all
    from s1(1) eq have "closure_loop g s = Some (Inr s)"
      by (subst closure_loop.simps) (simp add: Let_def)
    with less.prems cl show ?thesis by (intro exI [of _ s] conjI) simp_all
  next
    case False
    with s1(4) have lt: "length s < length s1" by simp
    have "length s1 \<le> length (map fst g)" by (rule length_le_keys [OF s1(2) s1(3)])
    with lt have "length (map fst g) - length s1 < length (map fst g) - length s" by linarith
    from less.hyps [OF this s1(2) s1(3)] obtain s' where
      r: "closure_loop g s1 = Some (Inr s')" "distinct s'" "set s1 \<subseteq> set s'"
         "set s' \<subseteq> set (map fst g)"
         "\<forall>p ds. p \<in> set s' \<and> map_of g p = Some ds \<longrightarrow> set ds \<subseteq> set s'"
      by (elim exE conjE)
    from s1(1) False have "closure_loop g s = closure_loop g s1"
      by (subst closure_loop.simps) (simp add: Let_def)
    with r(1) have 1: "closure_loop g s = Some (Inr s')" by simp
    from s1(5) r(3) have 2: "set s \<subseteq> set s'" by (rule subset_trans)
    from 1 r(2) 2 r(4) r(5) show ?thesis by (intro exI conjI)
  qed
qed

lemma pkgMap_entry:
  assumes "map_of (fromPairs (map (\<lambda>p. (name p, p)) ps)) k = Some p"
  shows "name p = k \<and> p \<in> set ps"
proof -
  from assms have "map_of (rev (map (\<lambda>p. (name p, p)) ps)) k = Some p"
    by (simp only: fromPairs_props(3))
  then have "(k, p) \<in> set (rev (map (\<lambda>p. (name p, p)) ps))" by (rule map_of_SomeD)
  then show ?thesis by auto
qed

lemma new_Workspace_facts:
  assumes ws: "new_Workspace ps = Some (Inr ws)"
  shows "packages ws = ps"
    and "pkgMap ws = fromPairs (map (\<lambda>p. (name p, p)) ps)"
    and "distinct (map fst (pkgMap ws))"
    and "map fst (depGraph ws) = map fst (pkgMap ws)"
    and "edges (depGraph ws) = (direct_edges (pkgMap ws))\<^sup>+"
    and "set (map fst (pkgMap ws)) = name ` set ps"
    and "map_of (pkgMap ws) k = Some p \<Longrightarrow> name p = k \<and> p \<in> set ps"
    and "map_of (depGraph ws) k = Some ds \<Longrightarrow> set ds \<subseteq> set (map fst (depGraph ws))"
    and "map_of (depGraph ws) k = Some ds \<Longrightarrow> distinct ds"
proof -
  from new_Workspace_props [of ps] obtain ws' where
    ws': "new_Workspace ps = Some (Inr ws')"
    and 1: "packages ws' = ps"
    and 2: "pkgMap ws' = fromPairs (map (\<lambda>p. (name p, p)) ps)"
    and 3: "distinct (map fst (pkgMap ws'))"
    and 4: "map fst (depGraph ws') = map fst (pkgMap ws')"
    and 5: "\<forall>k ds. map_of (depGraph ws') k = Some ds \<longrightarrow> distinct ds"
    and 6: "edges (depGraph ws') = (direct_edges (pkgMap ws'))\<^sup>+"
    by (elim exE conjE)
  from ws ws' have eq: "ws' = ws" by simp
  from 1 eq show a1: "packages ws = ps" by simp
  from 2 eq show a2: "pkgMap ws = fromPairs (map (\<lambda>p. (name p, p)) ps)" by simp
  from 3 eq show a3: "distinct (map fst (pkgMap ws))" by simp
  from 4 eq show a4: "map fst (depGraph ws) = map fst (pkgMap ws)" by simp
  from 6 eq show a5: "edges (depGraph ws) = (direct_edges (pkgMap ws))\<^sup>+" by simp
  show a6: "set (map fst (pkgMap ws)) = name ` set ps" unfolding a2 by (rule pkgMap_names)
  show "map_of (pkgMap ws) k = Some p \<Longrightarrow> name p = k \<and> p \<in> set ps"
    unfolding a2 by (rule pkgMap_entry)
  show "set ds \<subseteq> set (map fst (depGraph ws))" if m: "map_of (depGraph ws) k = Some ds"
  proof
    fix x assume "x \<in> set ds"
    with m have "(k, x) \<in> edges (depGraph ws)" by (auto simp: edges_def)
    then have "(k, x) \<in> (direct_edges (pkgMap ws))\<^sup>+" by (simp only: a5)
    then have "x \<in> fst ` set (pkgMap ws)" by (rule direct_edges_range)
    then show "x \<in> set (map fst (depGraph ws))" by (simp add: a4)
  qed
  from 5 have "\<forall>k ds. map_of (depGraph ws) k = Some ds \<longrightarrow> distinct ds" by (simp only: eq)
  then have "map_of (depGraph ws) k = Some ds \<longrightarrow> distinct ds" by (elim allE)
  then show "map_of (depGraph ws) k = Some ds \<Longrightarrow> distinct ds" by (rule mp)
qed

lemma dependencyClosure_result:
  assumes ws: "new_Workspace ps = Some (Inr ws)" and roots: "set roots \<subseteq> set ps"
  shows "\<exists>pkgs. dependencyClosure ws roots = Some (Inr pkgs) \<and> distinct (map name pkgs) \<and>
           set pkgs \<subseteq> set ps \<and> name ` set roots \<subseteq> name ` set pkgs \<and>
           (\<forall>p\<in>set pkgs. map_of (pkgMap ws) (name p) = Some p) \<and>
           (\<forall>p\<in>set pkgs. \<exists>ds. map_of (depGraph ws) (name p) = Some ds) \<and>
           (\<forall>a b. a \<in> name ` set pkgs \<and> depends_on (depGraph ws) a b \<longrightarrow> b \<in> name ` set pkgs)"
proof -
  note f = new_Workspace_facts [OF ws]
  let ?g = "depGraph ws" and ?pm = "pkgMap ws"
  define s0 where "s0 = new_Set (map name roots)"
  have d0: "distinct s0" by (simp add: s0_def distinct_new_Set)
  have "set s0 = name ` set roots" by (simp add: s0_def set_new_Set)
  also have "\<dots> \<subseteq> name ` set ps" using roots by (rule image_mono)
  also have "\<dots> = set (map fst ?g)" by (simp only: f(4) f(6))
  finally have k0: "set s0 \<subseteq> set (map fst ?g)" .
  have "\<exists>s'. closure_loop ?g s0 = Some (Inr s') \<and> distinct s' \<and> set s0 \<subseteq> set s' \<and>
           set s' \<subseteq> set (map fst ?g) \<and>
           (\<forall>p ds. p \<in> set s' \<and> map_of ?g p = Some ds \<longrightarrow> set ds \<subseteq> set s')"
  proof (rule closure_loop_result)
    fix k ds assume "map_of ?g k = Some ds"
    then show "set ds \<subseteq> set (map fst ?g)" by (rule f(8))
  next
    show "distinct s0" by (rule d0)
  next
    show "set s0 \<subseteq> set (map fst ?g)" by (rule k0)
  qed
  then obtain s' where
    s': "closure_loop ?g s0 = Some (Inr s')" "distinct s'" "set s0 \<subseteq> set s'"
        "set s' \<subseteq> set (map fst ?g)"
        "\<forall>p ds. p \<in> set s' \<and> map_of ?g p = Some ds \<longrightarrow> set ds \<subseteq> set s'"
    by (elim exE conjE)
  define h where "h = (\<lambda>k. the (map_of ?pm k))"
  define pkgs where "pkgs = map h s'"
  have hk: "map_of ?pm k = Some (h k) \<and> name (h k) = k \<and> h k \<in> set ps" if "k \<in> set s'" for k
  proof -
    from s'(4) that have "k \<in> set (map fst ?g)" by (rule subsetD)
    then have "k \<in> set (map fst ?pm)" by (simp only: f(4))
    from map_of_key [OF this] obtain p where p: "map_of ?pm k = Some p" ..
    from f(7) [OF p] p show ?thesis by (simp add: h_def)
  qed
  have me: "mapE s' (\<lambda>p. case obj_get ?pm p of None \<Rightarrow> Inl TypeError | Some pkg \<Rightarrow> Inr pkg)
            = Inr pkgs"
    unfolding pkgs_def
  proof (rule mapE_total)
    fix x assume "x \<in> set s'"
    from hk [OF this] show "(case obj_get ?pm x of None \<Rightarrow> Inl TypeError | Some pkg \<Rightarrow> Inr pkg)
        = Inr (h x)" by (simp add: obj_get_def)
  qed
  have 1: "dependencyClosure ws roots = Some (Inr pkgs)"
    by (simp add: dependencyClosure_def s0_def [symmetric] s'(1) me)
  have names: "map name pkgs = s'"
  proof -
    have "map name pkgs = map (\<lambda>k. name (h k)) s'" by (simp add: pkgs_def comp_def)
    also have "\<dots> = map (\<lambda>k. k) s'" by (rule map_cong [OF refl]) (simp add: hk)
    finally show ?thesis by simp
  qed
  have 2: "distinct (map name pkgs)" by (simp only: names s'(2))
  have 3: "set pkgs \<subseteq> set ps" using hk by (auto simp: pkgs_def)
  have ns: "name ` set pkgs = set s'" using names by (metis set_map)
  have 4: "name ` set roots \<subseteq> name ` set pkgs"
    using s'(3) by (simp add: ns s0_def set_new_Set)
  have 5: "\<forall>p\<in>set pkgs. map_of ?pm (name p) = Some p"
  proof
    fix p assume "p \<in> set pkgs"
    then obtain k where k: "k \<in> set s'" "p = h k" by (auto simp: pkgs_def)
    from hk [OF k(1)] k(2) show "map_of ?pm (name p) = Some p" by simp
  qed
  have 6: "\<forall>p\<in>set pkgs. \<exists>ds. map_of ?g (name p) = Some ds"
  proof
    fix p assume "p \<in> set pkgs"
    then have "name p \<in> name ` set pkgs" by (rule imageI)
    then have "name p \<in> set s'" by (simp only: ns)
    with s'(4) have "name p \<in> set (map fst ?g)" by (rule subsetD)
    from map_of_key [OF this] show "\<exists>ds. map_of ?g (name p) = Some ds" .
  qed
  have 7: "\<forall>a b. a \<in> name ` set pkgs \<and> depends_on ?g a b \<longrightarrow> b \<in> name ` set pkgs"
  proof (intro allI impI, elim conjE)
    fix a b assume a: "a \<in> name ` set pkgs" and ab: "depends_on ?g a b"
    from a have as: "a \<in> set s'" by (simp only: ns)
    from ab obtain ds where ds: "map_of ?g a = Some ds" "b \<in> set ds"
      by (auto simp: depends_on_def obj_get_def split: option.splits)
    from s'(5) have "a \<in> set s' \<and> map_of ?g a = Some ds \<longrightarrow> set ds \<subseteq> set s'" by (elim allE)
    with as ds(1) have "set ds \<subseteq> set s'" by simp
    then have "b \<in> set s'" using ds(2) by (rule subsetD)
    then show "b \<in> name ` set pkgs" by (simp only: ns)
  qed
  from 1 2 3 4 5 6 7 show ?thesis by (intro exI conjI)
qed

lemma filterE_result: "filterE f xs = Inr ys \<Longrightarrow> ys = filter (\<lambda>x. f x = Inr True) xs"
proof (induction xs arbitrary: ys)
  case Nil
  then show ?case by simp
next
  case (Cons x xs)
  from Cons.prems obtain b zs where b: "f x = Inr b" and zs: "filterE f xs = Inr zs"
    and ys: "ys = (if b then x # zs else zs)"
    by (auto split: sum.splits)
  from Cons.IH [OF zs] have "zs = filter (\<lambda>x. f x = Inr True) xs" .
  with b ys show ?case by simp
qed


lemma canExecute_ready:
  assumes "canExecute g pkgs st = Inr ready" and "pkg \<in> set ready"
  shows "pkg \<in> set pkgs" and "map_of st (name pkg) = Some Queued"
    and "depends_on g (name pkg) B \<Longrightarrow> map_of st B = Some Finished"
proof -
  let ?f = "\<lambda>pkg. if obj_get st (name pkg) = Some Queued
         then (case obj_get g (name pkg) of None \<Rightarrow> Inl TypeError
               | Some ds \<Rightarrow> Inr (list_all (\<lambda>n. obj_get st n = Some Finished) ds))
         else Inr False"
  from assms(1) have "ready = filter (\<lambda>x. ?f x = Inr True) pkgs"
    unfolding canExecute_def by (rule filterE_result)
  with assms(2) have p: "pkg \<in> set pkgs" and t: "?f pkg = Inr True" by simp_all
  from p show "pkg \<in> set pkgs" .
  from t have q: "obj_get st (name pkg) = Some Queued" by (simp split: if_splits)
  then show "map_of st (name pkg) = Some Queued" by (simp only: obj_get_def)
  from t q obtain ds where ds: "obj_get g (name pkg) = Some ds"
    and all: "list_all (\<lambda>n. obj_get st n = Some Finished) ds"
    by (auto split: option.splits)
  show "map_of st B = Some Finished" if "depends_on g (name pkg) B"
  proof -
    from that ds have "B \<in> set ds" by (simp add: depends_on_def)
    with all show ?thesis by (simp add: list_all_iff obj_get_def)
  qed
qed

lemma fold_start_task:
  "promise (fold start_task ready st) = promise st \<and>
   trace (fold start_task ready st) = trace st @ map (\<lambda>pkg. Started (name pkg)) ready \<and>
   map_of (status (fold start_task ready st)) =
     (\<lambda>k. if k \<in> name ` set ready then Some Running else map_of (status st) k)"
proof (induction ready arbitrary: st)
  case Nil
  show ?case by simp
next
  case (Cons p ready)
  have 1: "promise (start_task p st) = promise st" by (simp add: start_task_def)
  have 2: "trace (start_task p st) = trace st @ [Started (name p)]" by (simp add: start_task_def)
  have 3: "map_of (status (start_task p st)) = (map_of (status st))(name p \<mapsto> Running)"
    by (simp add: start_task_def obj_set_def update_conv')
  from Cons.IH [of "start_task p st"] 1 2 3 show ?case by (auto simp: fun_eq_iff)
qed

lemma dependencies_first_Nil: "dependencies_first g []"
  by (simp add: dependencies_first_def)

lemma dependencies_first_Completed:
  assumes "dependencies_first g tr"
  shows "dependencies_first g (tr @ [Completed n b])"
  unfolding dependencies_first_def
proof (intro allI impI, elim conjE)
  fix pre A post B
  assume eq: "tr @ [Completed n b] = pre @ Started A # post" and d: "depends_on g A B"
  from eq have "post \<noteq> []" by (cases post rule: rev_cases) auto
  then obtain post' e where p: "post = post' @ [e]" by (cases post rule: rev_cases) auto
  with eq have "tr = pre @ Started A # post'" by simp
  with assms d show "\<exists>s. Completed B s \<in> set pre"
    unfolding dependencies_first_def by (elim allE [of _ pre] allE [of _ A] allE [of _ post'] allE [of _ B] impE) simp_all
qed

lemma dependencies_first_Started:
  assumes "dependencies_first g tr"
    and "\<And>B. depends_on g n B \<Longrightarrow> \<exists>s. Completed B s \<in> set tr"
  shows "dependencies_first g (tr @ [Started n])"
  unfolding dependencies_first_def
proof (intro allI impI, elim conjE)
  fix pre A post B
  assume eq: "tr @ [Started n] = pre @ Started A # post" and d: "depends_on g A B"
  show "\<exists>s. Completed B s \<in> set pre"
  proof (cases post rule: rev_cases)
    case Nil
    with eq have "pre = tr" "A = n" by simp_all
    with d assms(2) show ?thesis by simp
  next
    case (snoc post' e)
    with eq have "tr = pre @ Started A # post'" by simp
    with assms(1) d show ?thesis
      unfolding dependencies_first_def by (elim allE [of _ pre] allE [of _ A] allE [of _ post'] allE [of _ B] impE) simp_all
  qed
qed

lemma dependencies_first_Started_list:
  assumes "dependencies_first g tr"
    and "\<And>n B. n \<in> set ns \<Longrightarrow> depends_on g n B \<Longrightarrow> \<exists>s. Completed B s \<in> set tr"
  shows "dependencies_first g (tr @ map Started ns)"
  using assms
proof (induction ns arbitrary: tr)
  case Nil
  then show ?case by simp
next
  case (Cons n ns)
  have 1: "dependencies_first g (tr @ [Started n])"
  proof (rule dependencies_first_Started [OF Cons.prems(1)])
    fix B assume "depends_on g n B"
    then show "\<exists>s. Completed B s \<in> set tr" by (rule Cons.prems(2) [rotated]) simp
  qed
  have "dependencies_first g ((tr @ [Started n]) @ map Started ns)"
  proof (rule Cons.IH [OF 1])
    fix m B assume "m \<in> set ns" "depends_on g m B"
    then have "m \<in> set (n # ns)" "depends_on g m B" by simp_all
    then have "\<exists>s. Completed B s \<in> set tr" by (rule Cons.prems(2))
    then show "\<exists>s. Completed B s \<in> set (tr @ [Started n])" by auto
  qed
  then show ?case by simp
qed

lemma order_invI:
  assumes "\<And>B. map_of (status st) B = Some Finished \<Longrightarrow> \<exists>s. Completed B s \<in> set (trace st)"
    and "dependencies_first g (trace st)"
  shows "order_inv g st"
  unfolding order_inv_def using assms by (intro conjI allI impI)

lemma order_invD:
  assumes "order_inv g st"
  shows "map_of (status st) B = Some Finished \<Longrightarrow> \<exists>s. Completed B s \<in> set (trace st)"
    and "dependencies_first g (trace st)"
proof -
  from assms have c: "(\<forall>B. map_of (status st) B = Some Finished \<longrightarrow>
      (\<exists>s. Completed B s \<in> set (trace st))) \<and> dependencies_first g (trace st)"
    unfolding order_inv_def .
  from c have "\<forall>B. map_of (status st) B = Some Finished \<longrightarrow>
      (\<exists>s. Completed B s \<in> set (trace st))" by (rule conjunct1)
  then have "map_of (status st) B = Some Finished \<longrightarrow> (\<exists>s. Completed B s \<in> set (trace st))"
    by (rule spec)
  then show "map_of (status st) B = Some Finished \<Longrightarrow> \<exists>s. Completed B s \<in> set (trace st)"
    by (rule mp)
  from c show "dependencies_first g (trace st)" by (rule conjunct2)
qed

lemma order_inv_promise: "order_inv g (st\<lparr>promise := p\<rparr>) = order_inv g st"
  by (simp add: order_inv_def)

lemma order_inv_reject: "order_inv g (reject st) = order_inv g st"
  by (simp add: reject_def order_inv_promise)

lemma order_inv_resolve: "order_inv g (resolve st) = order_inv g st"
  by (simp add: resolve_def order_inv_promise)

lemma runTasks_order_inv:
  assumes inv: "order_inv g st" and rt: "runTasks g pkgs st = Inr st'"
  shows "order_inv g st'"
proof -
  from rt obtain ready where ce: "canExecute g pkgs (status st) = Inr ready"
    and st': "st' = fold start_task ready st"
    by (auto simp: runTasks_def split: sum.splits)
  note fs = fold_start_task [of ready st]
  from fs st' have tr: "trace st' = trace st @ map Started (map name ready)"
    by (simp add: comp_def)
  from fs st' have ms: "map_of (status st') =
     (\<lambda>k. if k \<in> name ` set ready then Some Running else map_of (status st) k)" by simp
  show ?thesis
  proof (rule order_invI)
    fix B assume "map_of (status st') B = Some Finished"
    with ms have "map_of (status st) B = Some Finished" by (simp split: if_splits)
    from order_invD(1) [OF inv this] obtain s where "Completed B s \<in> set (trace st)" ..
    then have "Completed B s \<in> set (trace st')" by (simp add: tr)
    then show "\<exists>s. Completed B s \<in> set (trace st')" ..
  next
    have "dependencies_first g (trace st @ map Started (map name ready))"
    proof (rule dependencies_first_Started_list [OF order_invD(2) [OF inv]])
      fix n B assume n: "n \<in> set (map name ready)" and d: "depends_on g n B"
      from n obtain pkg where pkg: "pkg \<in> set ready" "n = name pkg" by auto
      from d pkg(2) have "depends_on g (name pkg) B" by simp
      from canExecute_ready(3) [OF ce pkg(1) this]
      have "map_of (status st) B = Some Finished" .
      then show "\<exists>s. Completed B s \<in> set (trace st)" by (rule order_invD(1) [OF inv])
    qed
    then show "dependencies_first g (trace st')" by (simp only: tr)
  qed
qed

lemma complete_order_inv:
  assumes inv: "order_inv g st"
  shows "order_inv g (complete g pkgs pkg success st)"
proof -
  define st1 where "st1 = (if \<not> success then reject st else st)"
  define st2 where "st2 = st1\<lparr>status := obj_set (status st1) (name pkg) Finished,
                    trace := trace st1 @ [Completed (name pkg) success]\<rparr>"
  have i1: "order_inv g st1" using inv by (simp add: st1_def order_inv_reject)
  have i2: "order_inv g st2"
  proof (rule order_invI)
    fix B assume b: "map_of (status st2) B = Some Finished"
    show "\<exists>s. Completed B s \<in> set (trace st2)"
    proof (cases "B = name pkg")
      case True
      then have "Completed B success \<in> set (trace st2)" by (simp add: st2_def)
      then show ?thesis ..
    next
      case False
      with b have "map_of (status st1) B = Some Finished"
        by (simp add: st2_def obj_set_def update_conv')
      from order_invD(1) [OF i1 this] obtain s where "Completed B s \<in> set (trace st1)" ..
      then have "Completed B s \<in> set (trace st2)" by (simp add: st2_def)
      then show ?thesis ..
    qed
  next
    have "dependencies_first g (trace st1 @ [Completed (name pkg) success])"
      by (rule dependencies_first_Completed [OF order_invD(2) [OF i1]])
    then show "dependencies_first g (trace st2)" by (simp add: st2_def)
  qed
  have c: "complete g pkgs pkg success st =
     (if list_all (\<lambda>k. obj_get (status st2) k = Some Finished) (Object_keys (status st2))
      then resolve st2
      else (case runTasks g pkgs st2 of Inl e \<Rightarrow> st2 | Inr st3 \<Rightarrow> st3))"
    unfolding complete_def Let_def st2_def st1_def by (rule refl)
  show ?thesis
  proof (cases "list_all (\<lambda>k. obj_get (status st2) k = Some Finished) (Object_keys (status st2))")
    case True
    with c i2 show ?thesis by (simp add: order_inv_resolve)
  next
    case False
    show ?thesis
    proof (cases "runTasks g pkgs st2")
      case (Inl e)
      with c False i2 show ?thesis by simp
    next
      case (Inr st3)
      from runTasks_order_inv [OF i2 Inr] c False Inr show ?thesis by simp
    qed
  qed
qed

lemma queued_table:
  "map_of (fromPairs (map (\<lambda>pkg. (name pkg, Queued)) pkgs)) k = Some s \<Longrightarrow> s = Queued"
proof -
  assume "map_of (fromPairs (map (\<lambda>pkg. (name pkg, Queued)) pkgs)) k = Some s"
  then have "map_of (rev (map (\<lambda>pkg. (name pkg, Queued)) pkgs)) k = Some s"
    by (simp only: fromPairs_props(3))
  then have "(k, s) \<in> set (rev (map (\<lambda>pkg. (name pkg, Queued)) pkgs))" by (rule map_of_SomeD)
  then show ?thesis by auto
qed

lemma start_run_order_inv: "order_inv g (start_run g pkgs)"
proof -
  define st where "st = \<lparr>status = fromPairs (map (\<lambda>pkg. (name pkg, Queued)) pkgs),
                promise = Pending, trace = []\<rparr>"
  have i0: "order_inv g st"
  proof (rule order_invI)
    fix B assume "map_of (status st) B = Some Finished"
    then have "map_of (fromPairs (map (\<lambda>pkg. (name pkg, Queued)) pkgs)) B = Some Finished"
      by (simp add: st_def)
    from queued_table [OF this] show "\<exists>s. Completed B s \<in> set (trace st)" by simp
  next
    show "dependencies_first g (trace st)" by (simp add: st_def dependencies_first_Nil)
  qed
  have s: "start_run g pkgs = (case runTasks g pkgs st of Inl e \<Rightarrow> reject st | Inr st' \<Rightarrow> st')"
    unfolding start_run_def Let_def st_def by (rule refl)
  show ?thesis
  proof (cases "runTasks g pkgs st")
    case (Inl e)
    with s i0 show ?thesis by (simp add: order_inv_reject)
  next
    case (Inr st')
    from runTasks_order_inv [OF i0 Inr] s Inr show ?thesis by simp
  qed
qed

lemma fold_invariant:
  assumes "P s" and "\<And>x s. P s \<Longrightarrow> P (f x s)"
  shows "P (fold f xs s)"
  using assms(1)
proof (induction xs arbitrary: s)
  case Nil
  then show ?case by simp
next
  case (Cons x xs)
  from Cons.prems have "P (f x s)" by (rule assms(2))
  then have "P (fold f xs (f x s))" by (rule Cons.IH)
  then show ?case by simp
qed

lemma ordered_run_order_inv: "order_inv g (ordered_run g task pkgs schedule)"
  unfolding ordered_run_def
proof (rule fold_invariant [where P = "order_inv g"])
  show "order_inv g (start_run g pkgs)" by (rule start_run_order_inv)
next
  fix x s assume "order_inv g s"
  then show "order_inv g (complete_next g task pkgs x s)"
    by (simp add: complete_next_def complete_order_inv)
qed

lemma declares_closure:
  assumes ws: "new_Workspace ps = Some (Inr ws)"
  shows "((A, B) \<in> {(a, b). declares (pkgMap ws) a b}\<^sup>+) = depends_on (depGraph ws) A B"
proof -
  have "{(a, b). declares (pkgMap ws) a b} = direct_edges (pkgMap ws)"
    using direct_edges_declares [of _ _ "pkgMap ws"] by auto
  then have "((A, B) \<in> {(a, b). declares (pkgMap ws) a b}\<^sup>+) =
             ((A, B) \<in> (direct_edges (pkgMap ws))\<^sup>+)" by simp
  also have "\<dots> = ((A, B) \<in> edges (depGraph ws))"
    by (simp only: new_Workspace_facts(5) [OF ws])
  also have "\<dots> = depends_on (depGraph ws) A B" by (rule edges_depends_on)
  finally show ?thesis .
qed

lemma runPackages_ordered_events:
  assumes "runPackages ws False task only schedule = Some (Inr r)"
  shows "\<exists>pkgs. dependencyClosure ws (case only of None \<Rightarrow> packages ws | Some ps \<Rightarrow> ps)
            = Some (Inr pkgs) \<and> selected r = pkgs \<and>
          events r = trace (ordered_run (depGraph ws) task pkgs schedule) \<and>
          returned r = (case promise (ordered_run (depGraph ws) task pkgs schedule) of
                          Pending \<Rightarrow> None | Resolved \<Rightarrow> Some True | Rejected \<Rightarrow> Some False)"
  using assms
  by (auto simp: runPackages_def Let_def split: option.splits sum.splits)














lemma runTasks_started:
  assumes inv: "\<forall>n. Started n \<in> set (trace st) \<longrightarrow> n \<in> name ` set pkgs"
    and rt: "runTasks g pkgs st = Inr st'"
  shows "\<forall>n. Started n \<in> set (trace st') \<longrightarrow> n \<in> name ` set pkgs"
proof (intro allI impI)
  fix n assume n: "Started n \<in> set (trace st')"
  from rt obtain ready where ce: "canExecute g pkgs (status st) = Inr ready"
    and st': "st' = fold start_task ready st"
    by (auto simp: runTasks_def split: sum.splits)
  note fs = fold_start_task [of ready st]
  from fs st' have tr: "trace st' = trace st @ map (\<lambda>pkg. Started (name pkg)) ready" by simp
  from n tr consider "Started n \<in> set (trace st)" | "n \<in> name ` set ready" by auto
  then show "n \<in> name ` set pkgs"
  proof cases
    case 1
    with inv show ?thesis by simp
  next
    case 2
    then obtain pkg where pkg: "pkg \<in> set ready" "n = name pkg" by auto
    from canExecute_ready(1) [OF ce pkg(1)] pkg(2) show ?thesis by simp
  qed
qed

lemma complete_started:
  assumes inv: "\<forall>n. Started n \<in> set (trace st) \<longrightarrow> n \<in> name ` set pkgs"
  shows "\<forall>n. Started n \<in> set (trace (complete g pkgs pkg success st)) \<longrightarrow> n \<in> name ` set pkgs"
proof -
  define st1 where "st1 = (if \<not> success then reject st else st)"
  define st2 where "st2 = st1\<lparr>status := obj_set (status st1) (name pkg) Finished,
                    trace := trace st1 @ [Completed (name pkg) success]\<rparr>"
  have "trace st2 = trace st @ [Completed (name pkg) success]"
    by (simp add: st2_def st1_def reject_def)
  with inv have i2: "\<forall>n. Started n \<in> set (trace st2) \<longrightarrow> n \<in> name ` set pkgs" by simp
  have c: "complete g pkgs pkg success st =
     (if list_all (\<lambda>k. obj_get (status st2) k = Some Finished) (Object_keys (status st2))
      then resolve st2
      else (case runTasks g pkgs st2 of Inl e \<Rightarrow> st2 | Inr st3 \<Rightarrow> st3))"
    unfolding complete_def Let_def st2_def st1_def by (rule refl)
  show ?thesis
  proof (cases "list_all (\<lambda>k. obj_get (status st2) k = Some Finished) (Object_keys (status st2))")
    case True
    have "trace (resolve st2) = trace st2" by (simp add: resolve_def)
    with c True i2 show ?thesis by simp
  next
    case False
    show ?thesis
    proof (cases "runTasks g pkgs st2")
      case (Inl e)
      with c False i2 show ?thesis by simp
    next
      case (Inr st3)
      from runTasks_started [OF i2 Inr] c False Inr show ?thesis by simp
    qed
  qed
qed

lemma ordered_run_started:
  "\<forall>n. Started n \<in> set (trace (ordered_run g task pkgs schedule)) \<longrightarrow> n \<in> name ` set pkgs"
  unfolding ordered_run_def
proof (rule fold_invariant
    [where P = "\<lambda>st::sched. \<forall>n. Started n \<in> set (trace st) \<longrightarrow> n \<in> name ` set pkgs"])
  define st where "st = \<lparr>status = fromPairs (map (\<lambda>pkg. (name pkg, Queued)) pkgs),
                promise = Pending, trace = []\<rparr>"
  have i0: "\<forall>n. Started n \<in> set (trace st) \<longrightarrow> n \<in> name ` set pkgs" by (simp add: st_def)
  have s: "start_run g pkgs = (case runTasks g pkgs st of Inl e \<Rightarrow> reject st | Inr st' \<Rightarrow> st')"
    unfolding start_run_def Let_def st_def by (rule refl)
  show "\<forall>n. Started n \<in> set (trace (start_run g pkgs)) \<longrightarrow> n \<in> name ` set pkgs"
  proof (cases "runTasks g pkgs st")
    case (Inl e)
    have "trace (reject st) = trace st" by (simp add: reject_def)
    with s Inl i0 show ?thesis by simp
  next
    case (Inr st')
    from runTasks_started [OF i0 Inr] s Inr show ?thesis by simp
  qed
next
  fix x and s :: sched
  assume i: "\<forall>n. Started n \<in> set (trace s) \<longrightarrow> n \<in> name ` set pkgs"
  show "\<forall>n. Started n \<in> set (trace (complete_next g task pkgs x s)) \<longrightarrow> n \<in> name ` set pkgs"
  proof (cases "x \<in> set pkgs \<and> obj_get (status s) (name x) = Some Running")
    case True
    with complete_started [OF i] show ?thesis by (simp add: complete_next_def)
  next
    case False
    then have "complete_next g task pkgs x s = s"
      unfolding complete_next_def by (rule if_not_P)
    with i show ?thesis by (simp only:)
  qed
qed

section \<open>The claims about the dependency graph\<close>

text \<open>
  Claim C4. The built dependency graph is transitively closed: building the workspace
  returns a workspace, and for all names \<open>A\<close>, \<open>B\<close>, \<open>C\<close>, if \<open>B\<close> is in the entry of \<open>A\<close>
  and \<open>C\<close> is in the entry of \<open>B\<close>, then \<open>C\<close> is in the entry of \<open>A\<close>.
\<close>

theorem depgraph_transitive:
  "\<exists>ws. new_Workspace ps = Some (Inr ws) \<and>
     (\<forall>A B C. depends_on (depGraph ws) A B \<and> depends_on (depGraph ws) B C
        \<longrightarrow> depends_on (depGraph ws) A C)"
proof -
  from new_Workspace_props [of ps] obtain ws where
    ws: "new_Workspace ps = Some (Inr ws)"
    and e: "edges (depGraph ws) = (direct_edges (pkgMap ws))\<^sup>+"
    by (elim exE conjE)
  have tr: "trans (edges (depGraph ws))" unfolding e by (rule trans_trancl)
  have "\<forall>A B C. depends_on (depGraph ws) A B \<and> depends_on (depGraph ws) B C
        \<longrightarrow> depends_on (depGraph ws) A C"
  proof (intro allI impI, elim conjE)
    fix A B C
    assume "depends_on (depGraph ws) A B" and "depends_on (depGraph ws) B C"
    then have "(A, B) \<in> edges (depGraph ws)" and "(B, C) \<in> edges (depGraph ws)"
      by (simp_all only: edges_depends_on)
    with tr have "(A, C) \<in> edges (depGraph ws)" by (rule transD)
    then show "depends_on (depGraph ws) A C" by (simp only: edges_depends_on)
  qed
  with ws show ?thesis by (intro exI conjI)
qed

theorem depgraph_transitive_witness:
  "\<exists>ws. new_Workspace [mkPackage ''A'' [''B''], mkPackage ''B'' [''C''], mkPackage ''C'' []]
           = Some (Inr ws) \<and>
        depends_on (depGraph ws) ''A'' ''B'' \<and> depends_on (depGraph ws) ''B'' ''C'' \<and>
        depends_on (depGraph ws) ''A'' ''C''"
proof -
  let ?ps = "[mkPackage ''A'' [''B''], mkPackage ''B'' [''C''], mkPackage ''C'' []]"
  from depgraph_transitive [of ?ps] obtain ws where
    ws: "new_Workspace ?ps = Some (Inr ws)"
    and tr: "\<forall>A B C. depends_on (depGraph ws) A B \<and> depends_on (depGraph ws) B C
        \<longrightarrow> depends_on (depGraph ws) A C"
    by (elim exE conjE)
  have g: "depGraph ws = [(''A'', [''B'', ''C'']), (''B'', [''C'']), (''C'', [])]"
    using ws by (simp add: graph_eval) auto
  have ab: "depends_on (depGraph ws) ''A'' ''B''" by (simp add: g depends_on_def obj_get_def)
  have bc: "depends_on (depGraph ws) ''B'' ''C''" by (simp add: g depends_on_def obj_get_def)
  from tr have "depends_on (depGraph ws) ''A'' ''B'' \<and> depends_on (depGraph ws) ''B'' ''C''
        \<longrightarrow> depends_on (depGraph ws) ''A'' ''C''" by (elim allE)
  with ab bc have "depends_on (depGraph ws) ''A'' ''C''" by simp
  with ws ab bc show ?thesis by (intro exI conjI)
qed

text \<open>
  Claim C9. For every package list the constructor returns a workspace whose graph has
  exactly the package names as keys, each once, so every package has an entry; every
  name in an entry is a package name, so declared names outside the workspace are left
  out; and a package whose declared names are all outside the workspace has the empty
  entry, not a missing one. (The package registered under a name is the last one of
  that name in the list; with unique names every package is registered.)
\<close>

theorem depgraph_keys_entries:
  "\<exists>ws. new_Workspace ps = Some (Inr ws) \<and>
     distinct (Object_keys (depGraph ws)) \<and>
     set (Object_keys (depGraph ws)) = name ` set ps \<and>
     (\<forall>p\<in>set ps. \<exists>ds. obj_get (depGraph ws) (name p) = Some ds) \<and>
     (\<forall>A B. depends_on (depGraph ws) A B \<longrightarrow> B \<in> name ` set ps) \<and>
     (\<forall>k p. obj_get (pkgMap ws) k = Some p \<and> (\<forall>d\<in>set (declaredNames p). d \<notin> name ` set ps)
        \<longrightarrow> obj_get (depGraph ws) k = Some []) \<and>
     (distinct (map name ps) \<longrightarrow> (\<forall>p\<in>set ps. obj_get (pkgMap ws) (name p) = Some p))"
proof -
  from new_Workspace_props [of ps] obtain ws where
    ws: "new_Workspace ps = Some (Inr ws)"
    and pm: "pkgMap ws = fromPairs (map (\<lambda>p. (name p, p)) ps)"
    and dpm: "distinct (map fst (pkgMap ws))"
    and keys: "map fst (depGraph ws) = map fst (pkgMap ws)"
    and e: "edges (depGraph ws) = (direct_edges (pkgMap ws))\<^sup>+"
    by (elim exE conjE)
  have names: "set (map fst (pkgMap ws)) = name ` set ps" unfolding pm by (rule pkgMap_names)
  have 1: "distinct (Object_keys (depGraph ws))"
    unfolding Object_keys_def using dpm keys by (simp only:)
  have 2: "set (Object_keys (depGraph ws)) = name ` set ps"
    unfolding Object_keys_def using names keys by (simp only:)
  have 3: "\<forall>p\<in>set ps. \<exists>ds. obj_get (depGraph ws) (name p) = Some ds"
  proof
    fix p assume "p \<in> set ps"
    then have "name p \<in> name ` set ps" by (rule imageI)
    with 2 have "name p \<in> set (map fst (depGraph ws))" by (simp only: Object_keys_def)
    from map_of_key [OF this] show "\<exists>ds. obj_get (depGraph ws) (name p) = Some ds"
      by (simp only: obj_get_def)
  qed
  have 4: "\<forall>A B. depends_on (depGraph ws) A B \<longrightarrow> B \<in> name ` set ps"
  proof (intro allI impI)
    fix A B assume "depends_on (depGraph ws) A B"
    then have "(A, B) \<in> edges (depGraph ws)" by (simp only: edges_depends_on)
    then have "(A, B) \<in> (direct_edges (pkgMap ws))\<^sup>+" by (simp only: e)
    then have "B \<in> fst ` set (pkgMap ws)" by (rule direct_edges_range)
    with names show "B \<in> name ` set ps" by (simp only: set_map)
  qed
  have 5: "\<forall>k p. obj_get (pkgMap ws) k = Some p \<and> (\<forall>d\<in>set (declaredNames p). d \<notin> name ` set ps)
        \<longrightarrow> obj_get (depGraph ws) k = Some []"
  proof (intro allI impI, elim conjE)
    fix k p
    assume kp: "obj_get (pkgMap ws) k = Some p"
      and none: "\<forall>d\<in>set (declaredNames p). d \<notin> name ` set ps"
    from kp have mk: "map_of (pkgMap ws) k = Some p" by (simp only: obj_get_def)
    then have "(k, p) \<in> set (pkgMap ws)" by (rule map_of_SomeD)
    then have "fst (k, p) \<in> fst ` set (pkgMap ws)" by (rule imageI)
    then have "k \<in> set (map fst (depGraph ws))" by (simp add: keys)
    from map_of_key [OF this] obtain ds where ds: "map_of (depGraph ws) k = Some ds" ..
    have "ds = []"
    proof (cases ds)
      case Nil
      then show ?thesis .
    next
      case (Cons x xs)
      with ds have "(k, x) \<in> edges (depGraph ws)" by (simp add: edges_def)
      then have "(k, x) \<in> (direct_edges (pkgMap ws))\<^sup>+" by (simp only: e)
      from direct_edges_first [OF this] obtain z where "(k, z) \<in> direct_edges (pkgMap ws)" ..
      then have "\<exists>q. map_of (pkgMap ws) k = Some q \<and> z \<in> set (declaredNames q) \<and>
          z \<in> fst ` set (pkgMap ws)"
        unfolding direct_edges_def by simp
      then obtain q where "map_of (pkgMap ws) k = Some q" "z \<in> set (declaredNames q)"
        "z \<in> fst ` set (pkgMap ws)" by (elim exE conjE)
      with mk have "z \<in> set (declaredNames p)" "z \<in> fst ` set (pkgMap ws)"
        by simp_all
      with names have "z \<in> set (declaredNames p)" "z \<in> name ` set ps"
        by (simp_all only: set_map)
      with none show ?thesis by simp
    qed
    with ds show "obj_get (depGraph ws) k = Some []" by (simp only: obj_get_def)
  qed
  have 6: "distinct (map name ps) \<longrightarrow> (\<forall>p\<in>set ps. obj_get (pkgMap ws) (name p) = Some p)"
  proof (intro impI ballI)
    fix p assume "distinct (map name ps)" "p \<in> set ps"
    then show "obj_get (pkgMap ws) (name p) = Some p"
      unfolding obj_get_def pm by (rule pkgMap_distinct_names)
  qed
  from ws 1 2 3 4 5 6 show ?thesis by (intro exI conjI)
qed

theorem depgraph_keys_entries_witness:
  "distinct (map name [mkPackage ''app'' [''lib'', ''lodash''], mkPackage ''lib'' [''react'']]) \<and>
   set (declaredNames (mkPackage ''lib'' [''react''])) \<inter>
      name ` set [mkPackage ''app'' [''lib'', ''lodash''], mkPackage ''lib'' [''react'']] = {} \<and>
   (\<exists>ws. new_Workspace [mkPackage ''app'' [''lib'', ''lodash''], mkPackage ''lib'' [''react'']]
            = Some (Inr ws) \<and>
      obj_get (pkgMap ws) ''lib'' = Some (mkPackage ''lib'' [''react'']) \<and>
      obj_get (depGraph ws) ''lib'' = Some [] \<and>
      depends_on (depGraph ws) ''app'' ''lib'' \<and>
      \<not> depends_on (depGraph ws) ''app'' ''lodash'')"
proof -
  let ?lib = "mkPackage ''lib'' [''react'']"
  let ?ps = "[mkPackage ''app'' [''lib'', ''lodash''], ?lib]"
  have d: "distinct (map name ?ps)" by (simp add: mkPackage_def mkDevPackage_def)
  have n0: "set (declaredNames ?lib) \<inter> name ` set ?ps = {}"
    by (simp add: graph_eval)
  then have n: "\<forall>d\<in>set (declaredNames ?lib). d \<notin> name ` set ?ps"
    by (simp only: disjoint_iff) (rule ballI, elim allE impE, assumption+)
  from depgraph_keys_entries [of ?ps] obtain ws where
    ws: "new_Workspace ?ps = Some (Inr ws)"
    and 4: "\<forall>A B. depends_on (depGraph ws) A B \<longrightarrow> B \<in> name ` set ?ps"
    and 5: "\<forall>k p. obj_get (pkgMap ws) k = Some p \<and>
        (\<forall>d\<in>set (declaredNames p). d \<notin> name ` set ?ps) \<longrightarrow> obj_get (depGraph ws) k = Some []"
    and 6: "distinct (map name ?ps) \<longrightarrow> (\<forall>p\<in>set ?ps. obj_get (pkgMap ws) (name p) = Some p)"
    by (elim exE conjE)
  from 6 d have "\<forall>p\<in>set ?ps. obj_get (pkgMap ws) (name p) = Some p" by (rule mp)
  then have "obj_get (pkgMap ws) (name ?lib) = Some ?lib" by simp
  then have pl: "obj_get (pkgMap ws) ''lib'' = Some ?lib"
    by (simp add: mkPackage_def mkDevPackage_def)
  from 5 have "obj_get (pkgMap ws) ''lib'' = Some ?lib \<and>
        (\<forall>d\<in>set (declaredNames ?lib). d \<notin> name ` set ?ps) \<longrightarrow> obj_get (depGraph ws) ''lib'' = Some []"
    by (elim allE)
  with pl n have gl: "obj_get (depGraph ws) ''lib'' = Some []" by (elim impE) (intro conjI)
  have al: "depends_on (depGraph ws) ''app'' ''lib''"
    using ws by (simp add: graph_eval) auto
  have "\<not> depends_on (depGraph ws) ''app'' ''lodash''"
  proof
    assume "depends_on (depGraph ws) ''app'' ''lodash''"
    with 4 have "''lodash'' \<in> name ` set ?ps" by (elim allE impE)
    then show False by (simp add: mkPackage_def mkDevPackage_def)
  qed
  with d n0 ws pl gl al show ?thesis by (intro exI conjI)
qed

text \<open>
  Claim C10. The closure loop of \<open>buildDepGraph\<close> ends for every package map (the
  result is \<open>Some\<close>, and no \<open>TypeError\<close>), also when the declared dependencies form
  cycles: for every cycle of declared dependencies, the entry of every member contains
  every member of the cycle.
\<close>

theorem fixpoint_terminates_cycles:
  "\<exists>g. buildDepGraph pm = Some (Inr g) \<and>
     (\<forall>c. cycle pm c \<longrightarrow> (\<forall>a\<in>set c. \<forall>b\<in>set c. depends_on g a b))"
proof -
  from buildDepGraph_closure [of pm] obtain g where
    g: "buildDepGraph pm = Some (Inr g)" and e: "edges g = (direct_edges pm)\<^sup>+"
    by (elim exE conjE)
  have "\<forall>c. cycle pm c \<longrightarrow> (\<forall>a\<in>set c. \<forall>b\<in>set c. depends_on g a b)"
  proof (intro allI impI ballI)
    fix c a b assume "cycle pm c" "a \<in> set c" "b \<in> set c"
    then have "(a, b) \<in> (direct_edges pm)\<^sup>+" by (rule cycle_members)
    then have "(a, b) \<in> edges g" by (simp only: e)
    then show "depends_on g a b" by (simp only: edges_depends_on)
  qed
  with g show ?thesis by (intro exI conjI)
qed

theorem fixpoint_terminates_cycles_witness:
  "cycle [(''A'', mkPackage ''A'' [''B'']), (''B'', mkPackage ''B'' [''A''])] [''A'', ''B''] \<and>
   (\<exists>g. buildDepGraph [(''A'', mkPackage ''A'' [''B'']), (''B'', mkPackage ''B'' [''A''])]
            = Some (Inr g) \<and>
      depends_on g ''A'' ''B'' \<and> depends_on g ''B'' ''A'' \<and>
      depends_on g ''A'' ''A'' \<and> depends_on g ''B'' ''B'')"
proof -
  let ?pm = "[(''A'', mkPackage ''A'' [''B'']), (''B'', mkPackage ''B'' [''A''])]"
  have c: "cycle ?pm [''A'', ''B'']" by (simp add: graph_eval)
  from fixpoint_terminates_cycles [of ?pm] obtain g where
    g: "buildDepGraph ?pm = Some (Inr g)"
    and cy: "\<forall>c. cycle ?pm c \<longrightarrow> (\<forall>a\<in>set c. \<forall>b\<in>set c. depends_on g a b)"
    by (elim exE conjE)
  from cy have "cycle ?pm [''A'', ''B''] \<longrightarrow>
      (\<forall>a\<in>set [''A'', ''B'']. \<forall>b\<in>set [''A'', ''B'']. depends_on g a b)" by (rule spec)
  with c have "\<forall>a\<in>set [''A'', ''B'']. \<forall>b\<in>set [''A'', ''B'']. depends_on g a b" by (rule rev_mp)
  then have d: "depends_on g ''A'' ''B''" "depends_on g ''B'' ''A''"
      "depends_on g ''A'' ''A''" "depends_on g ''B'' ''B''" by simp_all
  from c g d show ?thesis by (intro exI conjI)
qed

text \<open>
  Claim C5. The graph does not depend on the order of the package list, and building it
  twice from the same list gives the same result. Package names are unique in a
  workspace (the data model's join key): for a list \<open>ps\<close> with unique names and any
  permutation \<open>qs\<close> of it, both constructors return a workspace, the two graphs have
  the same keys, and every key has the same set as its entry. The builder reads the
  package map and writes nothing but its own result, so it is a function of the list:
  on the same list (\<open>qs = ps\<close>) the two workspaces are equal.
\<close>

theorem depgraph_order_independent:
  assumes d: "distinct (map name ps)" and perm: "mset qs = mset ps"
  shows "\<exists>w1 w2. new_Workspace ps = Some (Inr w1) \<and> new_Workspace qs = Some (Inr w2) \<and>
     set (Object_keys (depGraph w1)) = set (Object_keys (depGraph w2)) \<and>
     (\<forall>a. map_option set (obj_get (depGraph w1) a) = map_option set (obj_get (depGraph w2) a)) \<and>
     (qs = ps \<longrightarrow> w2 = w1)"
proof -
  let ?f = "\<lambda>p. (name p, p)"
  from new_Workspace_props [of ps] obtain w1 where
    w1: "new_Workspace ps = Some (Inr w1)"
    and pm1: "pkgMap w1 = fromPairs (map ?f ps)"
    and k1: "map fst (depGraph w1) = map fst (pkgMap w1)"
    and e1: "edges (depGraph w1) = (direct_edges (pkgMap w1))\<^sup>+"
    by (elim exE conjE)
  from new_Workspace_props [of qs] obtain w2 where
    w2: "new_Workspace qs = Some (Inr w2)"
    and pm2: "pkgMap w2 = fromPairs (map ?f qs)"
    and k2: "map fst (depGraph w2) = map fst (pkgMap w2)"
    and e2: "edges (depGraph w2) = (direct_edges (pkgMap w2))\<^sup>+"
    by (elim exE conjE)
  from perm have "mset (map name qs) = mset (map name ps)" by simp
  then have "distinct (map name qs) = distinct (map name ps)" by (rule mset_eq_imp_distinct_iff)
  with d have dq: "distinct (map name qs)" by simp
  have d1: "distinct (map fst (map ?f ps))" using d by (simp add: comp_def)
  have d2: "distinct (map fst (map ?f qs))" using dq by (simp add: comp_def)
  have p1: "pkgMap w1 = map ?f ps" unfolding pm1 using d1 by (rule fromPairs_distinct)
  have p2: "pkgMap w2 = map ?f qs" unfolding pm2 using d2 by (rule fromPairs_distinct)
  from perm have sq: "set qs = set ps" by (rule mset_eq_setD)
  then have ss: "set (map ?f ps) = set (map ?f qs)" by simp
  with d1 d2 have mm: "map_of (map ?f ps) = map_of (map ?f qs)"
    by (simp only: map_of_inject_set)
  from ss have ks: "fst ` set (pkgMap w1) = fst ` set (pkgMap w2)" by (simp only: p1 p2)
  from mm have "map_of (pkgMap w1) = map_of (pkgMap w2)" by (simp only: p1 p2)
  then have "direct_edges (pkgMap w1) = direct_edges (pkgMap w2)" using ks
    by (rule direct_edges_cong)
  with e1 e2 have ee: "edges (depGraph w1) = edges (depGraph w2)" by (simp only:)
  have kk: "set (map fst (depGraph w1)) = set (map fst (depGraph w2))"
    using ks k1 k2 by (simp only: set_map)
  have 3: "set (Object_keys (depGraph w1)) = set (Object_keys (depGraph w2))"
    unfolding Object_keys_def by (rule kk)
  have 4: "\<forall>a. map_option set (obj_get (depGraph w1) a) = map_option set (obj_get (depGraph w2) a)"
  proof
    fix a
    show "map_option set (obj_get (depGraph w1) a) = map_option set (obj_get (depGraph w2) a)"
    proof (cases "a \<in> set (map fst (depGraph w1))")
      case True
      from map_of_key [OF True] obtain xs where xs: "map_of (depGraph w1) a = Some xs" ..
      from True kk have "a \<in> set (map fst (depGraph w2))" by (simp only:)
      from map_of_key [OF this] obtain ys where ys: "map_of (depGraph w2) a = Some ys" ..
      have "set xs = {b. (a, b) \<in> edges (depGraph w1)}" by (rule depgraph_entry_set [OF xs])
      also have "\<dots> = {b. (a, b) \<in> edges (depGraph w2)}" by (simp only: ee)
      also have "\<dots> = set ys" by (rule depgraph_entry_set [OF ys, symmetric])
      finally show ?thesis by (simp add: obj_get_def xs ys)
    next
      case False
      then have n1: "map_of (depGraph w1) a = None" by (simp add: map_of_eq_None_iff)
      from False kk have "a \<notin> set (map fst (depGraph w2))" by simp
      then have n2: "map_of (depGraph w2) a = None" by (simp add: map_of_eq_None_iff)
      from n1 n2 show ?thesis by (simp add: obj_get_def)
    qed
  qed
  have 5: "qs = ps \<longrightarrow> w2 = w1"
  proof
    assume "qs = ps"
    with w2 have "new_Workspace ps = Some (Inr w2)" by simp
    with w1 show "w2 = w1" by simp
  qed
  from w1 w2 3 4 5 show ?thesis by (intro exI conjI)
qed

theorem depgraph_order_independent_witness:
  "distinct (map name [mkPackage ''A'' [''B'', ''C''], mkPackage ''B'' [], mkPackage ''C'' [''B'']]) \<and>
   mset [mkPackage ''C'' [''B''], mkPackage ''A'' [''B'', ''C''], mkPackage ''B'' []] =
   mset [mkPackage ''A'' [''B'', ''C''], mkPackage ''B'' [], mkPackage ''C'' [''B'']] \<and>
   (\<exists>w1 w2.
      new_Workspace [mkPackage ''A'' [''B'', ''C''], mkPackage ''B'' [], mkPackage ''C'' [''B'']]
        = Some (Inr w1) \<and>
      new_Workspace [mkPackage ''C'' [''B''], mkPackage ''A'' [''B'', ''C''], mkPackage ''B'' []]
        = Some (Inr w2) \<and>
      set (Object_keys (depGraph w1)) = set (Object_keys (depGraph w2)) \<and>
      map_option set (obj_get (depGraph w1) ''A'') = map_option set (obj_get (depGraph w2) ''A''))"
proof -
  let ?ps = "[mkPackage ''A'' [''B'', ''C''], mkPackage ''B'' [], mkPackage ''C'' [''B'']]"
  let ?qs = "[mkPackage ''C'' [''B''], mkPackage ''A'' [''B'', ''C''], mkPackage ''B'' []]"
  have d: "distinct (map name ?ps)" by (simp add: mkPackage_def mkDevPackage_def)
  have m: "mset ?qs = mset ?ps" by (simp add: add.commute add.left_commute)
  from depgraph_order_independent [OF d m] obtain w1 w2 where
    w: "new_Workspace ?ps = Some (Inr w1)" "new_Workspace ?qs = Some (Inr w2)"
       "set (Object_keys (depGraph w1)) = set (Object_keys (depGraph w2))"
    and a: "\<forall>a. map_option set (obj_get (depGraph w1) a) = map_option set (obj_get (depGraph w2) a)"
    by (elim exE conjE)
  from a have "map_option set (obj_get (depGraph w1) ''A'') =
               map_option set (obj_get (depGraph w2) ''A'')" by (rule spec)
  with d m w show ?thesis by (intro exI conjI)
qed

section \<open>The claims about running commands\<close>

text \<open>
  Claim C6. For a workspace built from packages with unique names and every list
  \<open>roots\<close> of its packages, \<open>dependencyClosure\<close> returns a list of workspace packages that
  contains every root and every package a root depends on transitively (through the
  declared dependencies). It is the list \<open>runPackages\<close> works on, in either mode and under
  every schedule: only its packages are started, and in parallel mode all of them are.
\<close>

theorem closure_contains_prerequisites:
  assumes ws: "new_Workspace ps = Some (Inr ws)"
    and d: "distinct (map name ps)"
    and roots: "set roots \<subseteq> set ps"
  shows "\<exists>pkgs. dependencyClosure ws roots = Some (Inr pkgs) \<and>
     set roots \<subseteq> set pkgs \<and> set pkgs \<subseteq> set ps \<and>
     (\<forall>r\<in>set roots. \<forall>B. (name r, B) \<in> {(a, b). declares (pkgMap ws) a b}\<^sup>+
        \<longrightarrow> B \<in> name ` set pkgs) \<and>
     (\<forall>par task schedule. \<exists>res.
        runPackages ws par task (Some roots) schedule = Some (Inr res) \<and>
        selected res = pkgs \<and>
        (\<forall>n. Started n \<in> set (events res) \<longrightarrow> n \<in> name ` set pkgs) \<and>
        (par \<longrightarrow> (\<forall>p\<in>set pkgs. Started (name p) \<in> set (events res))))"
proof -
  let ?g = "depGraph ws"
  from dependencyClosure_result [OF ws roots] obtain pkgs where
    dc: "dependencyClosure ws roots = Some (Inr pkgs)"
    and sub: "set pkgs \<subseteq> set ps"
    and rn: "name ` set roots \<subseteq> name ` set pkgs"
    and cl: "\<forall>a b. a \<in> name ` set pkgs \<and> depends_on ?g a b \<longrightarrow> b \<in> name ` set pkgs"
    by (elim exE conjE)
  from d have inj: "inj_on name (set ps)" by (simp add: distinct_map)
  have 2: "set roots \<subseteq> set pkgs"
  proof
    fix r assume r: "r \<in> set roots"
    then have "name r \<in> name ` set roots" by (rule imageI)
    with rn have "name r \<in> name ` set pkgs" by (rule subsetD)
    then obtain p where p: "p \<in> set pkgs" "name r = name p" by auto
    from roots r have "r \<in> set ps" by (rule subsetD)
    moreover from sub p(1) have "p \<in> set ps" by (rule subsetD)
    ultimately have "r = p" using inj p(2) by (simp add: inj_on_def)
    with p(1) show "r \<in> set pkgs" by simp
  qed
  have 4: "\<forall>r\<in>set roots. \<forall>B. (name r, B) \<in> {(a, b). declares (pkgMap ws) a b}\<^sup>+
        \<longrightarrow> B \<in> name ` set pkgs"
  proof (intro ballI allI impI)
    fix r B assume r: "r \<in> set roots"
      and t: "(name r, B) \<in> {(a, b). declares (pkgMap ws) a b}\<^sup>+"
    from r have "name r \<in> name ` set roots" by (rule imageI)
    with rn have a: "name r \<in> name ` set pkgs" by (rule subsetD)
    from t have b: "depends_on ?g (name r) B" by (simp only: declares_closure [OF ws])
    from cl have "name r \<in> name ` set pkgs \<and> depends_on ?g (name r) B \<longrightarrow> B \<in> name ` set pkgs"
      by (elim allE)
    with a b show "B \<in> name ` set pkgs" by simp
  qed
  have 5: "\<forall>par task schedule. \<exists>res.
        runPackages ws par task (Some roots) schedule = Some (Inr res) \<and>
        selected res = pkgs \<and>
        (\<forall>n. Started n \<in> set (events res) \<longrightarrow> n \<in> name ` set pkgs) \<and>
        (par \<longrightarrow> (\<forall>p\<in>set pkgs. Started (name p) \<in> set (events res)))"
  proof (intro allI)
    fix par task schedule
    show "\<exists>res. runPackages ws par task (Some roots) schedule = Some (Inr res) \<and>
        selected res = pkgs \<and>
        (\<forall>n. Started n \<in> set (events res) \<longrightarrow> n \<in> name ` set pkgs) \<and>
        (par \<longrightarrow> (\<forall>p\<in>set pkgs. Started (name p) \<in> set (events res)))"
    proof (cases par)
      case True
      let ?res = "parallel_run task pkgs schedule"
      from dc True have "runPackages ws par task (Some roots) schedule = Some (Inr ?res)"
        by (simp add: runPackages_def)
      moreover have "selected ?res = pkgs" by (simp add: parallel_run_def)
      moreover have "\<forall>n. Started n \<in> set (events ?res) \<longrightarrow> n \<in> name ` set pkgs"
        by (auto simp: parallel_run_def)
      moreover have "par \<longrightarrow> (\<forall>p\<in>set pkgs. Started (name p) \<in> set (events ?res))"
        by (auto simp: parallel_run_def)
      ultimately show ?thesis by (intro exI conjI)
    next
      case False
      let ?st = "ordered_run ?g task pkgs schedule"
      let ?res = "\<lparr>selected = pkgs,
             returned = (case promise ?st of Pending \<Rightarrow> None | Resolved \<Rightarrow> Some True
                         | Rejected \<Rightarrow> Some False),
             events = trace ?st\<rparr>"
      from dc False have "runPackages ws par task (Some roots) schedule = Some (Inr ?res)"
        by (simp add: runPackages_def Let_def)
      moreover have "selected ?res = pkgs" by simp
      moreover have "\<forall>n. Started n \<in> set (events ?res) \<longrightarrow> n \<in> name ` set pkgs"
        using ordered_run_started [of ?g task pkgs schedule] by simp
      moreover have "par \<longrightarrow> (\<forall>p\<in>set pkgs. Started (name p) \<in> set (events ?res))"
        using False by simp
      ultimately show ?thesis by (intro exI conjI)
    qed
  qed
  from dc 2 sub 4 5 show ?thesis by (intro exI conjI)
qed

theorem closure_contains_prerequisites_witness:
  "\<exists>ws pkgs.
     new_Workspace [mkPackage ''A'' [], mkPackage ''B'' [''A''], mkPackage ''C'' [''A''],
                    mkPackage ''D'' [''B'', ''C'']] = Some (Inr ws) \<and>
     distinct (map name [mkPackage ''A'' [], mkPackage ''B'' [''A''], mkPackage ''C'' [''A''],
                         mkPackage ''D'' [''B'', ''C'']]) \<and>
     set [mkPackage ''D'' [''B'', ''C'']]
       \<subseteq> set [mkPackage ''A'' [], mkPackage ''B'' [''A''], mkPackage ''C'' [''A''],
               mkPackage ''D'' [''B'', ''C'']] \<and>
     dependencyClosure ws [mkPackage ''D'' [''B'', ''C'']] = Some (Inr pkgs) \<and>
     (''D'', ''A'') \<in> {(a, b). declares (pkgMap ws) a b}\<^sup>+ \<and>
     mkPackage ''D'' [''B'', ''C''] \<in> set pkgs \<and>
     ''A'' \<in> name ` set pkgs"
proof -
  let ?D = "mkPackage ''D'' [''B'', ''C'']"
  let ?ps = "[mkPackage ''A'' [], mkPackage ''B'' [''A''], mkPackage ''C'' [''A''], ?D]"
  from new_Workspace_props [of ?ps] obtain ws where ws: "new_Workspace ?ps = Some (Inr ws)"
    by (elim exE conjE)
  have d: "distinct (map name ?ps)" by (simp add: mkPackage_def mkDevPackage_def)
  have roots: "set [?D] \<subseteq> set ?ps" by simp
  have pm: "pkgMap ws = fromPairs (map (\<lambda>p. (name p, p)) ?ps)"
    by (rule new_Workspace_facts(2) [OF ws])
  have db: "(''D'', ''B'') \<in> {(a, b). declares (pkgMap ws) a b}"
    unfolding pm by (simp add: graph_eval)
  have ba: "(''B'', ''A'') \<in> {(a, b). declares (pkgMap ws) a b}"
    unfolding pm by (simp add: graph_eval)
  from db ba have da: "(''D'', ''A'') \<in> {(a, b). declares (pkgMap ws) a b}\<^sup>+"
    by (rule trancl_into_trancl2 [OF _ r_into_trancl])
  from closure_contains_prerequisites [OF ws d roots] obtain pkgs where
    dc: "dependencyClosure ws [?D] = Some (Inr pkgs)"
    and sup: "set [?D] \<subseteq> set pkgs"
    and tr: "\<forall>r\<in>set [?D]. \<forall>B. (name r, B) \<in> {(a, b). declares (pkgMap ws) a b}\<^sup>+
        \<longrightarrow> B \<in> name ` set pkgs"
    by (elim exE conjE)
  from sup have dm: "?D \<in> set pkgs" by simp
  from tr have "\<forall>B. (name ?D, B) \<in> {(a, b). declares (pkgMap ws) a b}\<^sup>+
        \<longrightarrow> B \<in> name ` set pkgs" by simp
  then have "(name ?D, ''A'') \<in> {(a, b). declares (pkgMap ws) a b}\<^sup>+
        \<longrightarrow> ''A'' \<in> name ` set pkgs" by (rule spec)
  moreover have "name ?D = ''D''" by (simp add: mkPackage_def mkDevPackage_def)
  ultimately have am: "''A'' \<in> name ` set pkgs" using da by simp
  from ws d roots dc da dm am show ?thesis by (intro exI conjI)
qed

text \<open>
  Claim C1. In ordered mode, under every schedule, whenever the task of a package \<open>A\<close> is
  started, the task of every package \<open>B\<close> that \<open>A\<close> depends on transitively (through the
  declared dependencies between workspace packages) has completed before, which is
  when its status becomes \<open>finished\<close>; the same for every name \<open>B\<close> in the graph entry of
  \<open>A\<close>, the condition under which \<open>canExecute\<close> lets a queued package start.
\<close>

theorem ordered_dependencies_first:
  assumes ws: "new_Workspace ps = Some (Inr ws)"
    and run: "runPackages ws False task only schedule = Some (Inr r)"
  shows "(\<forall>pre A post B. events r = pre @ Started A # post \<and>
            (A, B) \<in> {(a, b). declares (pkgMap ws) a b}\<^sup>+
            \<longrightarrow> (\<exists>s. Completed B s \<in> set pre)) \<and>
         (\<forall>pre A post B. events r = pre @ Started A # post \<and> depends_on (depGraph ws) A B
            \<longrightarrow> (\<exists>s. Completed B s \<in> set pre))"
proof -
  from runPackages_ordered_events [OF run] obtain pkgs where
    ev: "events r = trace (ordered_run (depGraph ws) task pkgs schedule)"
    by (elim exE conjE)
  have "order_inv (depGraph ws) (ordered_run (depGraph ws) task pkgs schedule)"
    by (rule ordered_run_order_inv)
  then have "dependencies_first (depGraph ws) (events r)"
    unfolding ev by (rule order_invD(2))
  then have 2: "\<forall>pre A post B. events r = pre @ Started A # post \<and> depends_on (depGraph ws) A B
            \<longrightarrow> (\<exists>s. Completed B s \<in> set pre)"
    unfolding dependencies_first_def .
  then have 1: "\<forall>pre A post B. events r = pre @ Started A # post \<and>
            (A, B) \<in> {(a, b). declares (pkgMap ws) a b}\<^sup>+
            \<longrightarrow> (\<exists>s. Completed B s \<in> set pre)"
    by (simp only: declares_closure [OF ws])
  from 1 2 show ?thesis by (rule conjI)
qed

theorem ordered_dependencies_first_witness:
  "\<exists>ws r. new_Workspace [mkPackage ''C'' [''B''], mkPackage ''B'' [''A''], mkPackage ''A'' []]
             = Some (Inr ws) \<and>
     runPackages ws False succeeds None
       [mkPackage ''A'' [], mkPackage ''B'' [''A''], mkPackage ''C'' [''B'']] = Some (Inr r) \<and>
     events r = [Started ''A'', Completed ''A'' True, Started ''B'', Completed ''B'' True]
                  @ Started ''C'' # [Completed ''C'' True] \<and>
     (''C'', ''A'') \<in> {(a, b). declares (pkgMap ws) a b}\<^sup>+ \<and>
     Completed ''A'' True
       \<in> set [Started ''A'', Completed ''A'' True, Started ''B'', Completed ''B'' True]"
proof -
  let ?ps = "[mkPackage ''C'' [''B''], mkPackage ''B'' [''A''], mkPackage ''A'' []]"
  let ?sch = "[mkPackage ''A'' [], mkPackage ''B'' [''A''], mkPackage ''C'' [''B'']]"
  let ?pre = "[Started ''A'', Completed ''A'' True, Started ''B'', Completed ''B'' True]"
  from new_Workspace_props [of ?ps] obtain ws where ws: "new_Workspace ?ps = Some (Inr ws)"
    by (elim exE conjE)
  have "load_runPackages ?ps False succeeds None ?sch =
        Some (Inr \<lparr>selected = ?ps, returned = Some True,
                   events = ?pre @ Started ''C'' # [Completed ''C'' True]\<rparr>)"
    by (simp add: graph_eval run_eval)
  with ws have run: "runPackages ws False succeeds None ?sch =
        Some (Inr \<lparr>selected = ?ps, returned = Some True,
                   events = ?pre @ Started ''C'' # [Completed ''C'' True]\<rparr>)"
    by (simp add: load_runPackages_def)
  let ?r = "\<lparr>selected = ?ps, returned = Some True,
                   events = ?pre @ Started ''C'' # [Completed ''C'' True]\<rparr>"
  have ev: "events ?r = ?pre @ Started ''C'' # [Completed ''C'' True]" by simp
  have pm: "pkgMap ws = fromPairs (map (\<lambda>p. (name p, p)) ?ps)"
    by (rule new_Workspace_facts(2) [OF ws])
  have cb: "(''C'', ''B'') \<in> {(a, b). declares (pkgMap ws) a b}"
    unfolding pm by (simp add: graph_eval)
  have ba: "(''B'', ''A'') \<in> {(a, b). declares (pkgMap ws) a b}"
    unfolding pm by (simp add: graph_eval)
  from cb ba have ca: "(''C'', ''A'') \<in> {(a, b). declares (pkgMap ws) a b}\<^sup>+"
    by (rule trancl_into_trancl2 [OF _ r_into_trancl])
  from ordered_dependencies_first [OF ws run]
  have "\<forall>pre A post B. events ?r = pre @ Started A # post \<and>
            (A, B) \<in> {(a, b). declares (pkgMap ws) a b}\<^sup>+
            \<longrightarrow> (\<exists>s. Completed B s \<in> set pre)" by (rule conjunct1)
  then have "events ?r = ?pre @ Started ''C'' # [Completed ''C'' True] \<and>
            (''C'', ''A'') \<in> {(a, b). declares (pkgMap ws) a b}\<^sup>+
            \<longrightarrow> (\<exists>s. Completed ''A'' s \<in> set ?pre)" by (elim allE)
  with ev ca have "\<exists>s. Completed ''A'' s \<in> set ?pre" by (elim impE) (intro conjI)
  then have fin: "Completed ''A'' True \<in> set ?pre" by simp
  from ws run ev ca fin show ?thesis by (intro exI conjI)
qed

text \<open>
  Claim C2 says that in ordered mode a failing task makes the run fail, that no package
  is started after the failure is observed, and that no package whose dependency failed
  is ever started. The callback calls \<open>reject()\<close> on a failure but does not return: it
  goes on to mark the failed package as finished and to call \<open>runTasks()\<close>. With
  \<open>B\<close> depending on \<open>A\<close> and the task of \<open>A\<close> failing, the run returns \<open>false\<close>, and \<open>B\<close> is
  started after the failure of its dependency:
\<close>

theorem dependent_started_after_failure:
  "load_runPackages [mkPackage ''A'' [], mkPackage ''B'' [''A'']] False (fails_on ''A'') None
     [mkPackage ''A'' []] =
   Some (Inr \<lparr>selected = [mkPackage ''A'' [], mkPackage ''B'' [''A'']],
              returned = Some False,
              events = [Started ''A'', Completed ''A'' False, Started ''B'']\<rparr>)"
  by (simp add: graph_eval run_eval)

text \<open>
  Claim C3 says that the workspace-level function runs once after the per-package part,
  and only if that part succeeded. \<open>run\<close> awaits \<open>cmd.runWorkspace(this)\<close> before it
  looks at \<open>success\<close>, so the function is called after a failure as well:
\<close>

theorem runWorkspace_called_after_failure:
  "load_run [mkPackage ''A'' []]
     \<lparr>run = Some (fails_on ''A''), runWorkspace = Some True, parallel = None\<rparr> None
     [mkPackage ''A'' []] =
   Some (Inr \<lparr>perPackage = Some \<lparr>selected = [mkPackage ''A'' []], returned = Some False,
                                  events = [Started ''A'', Completed ''A'' False]\<rparr>,
              workspaceCalls = 1, result = Some False\<rparr>)"
  by (simp add: graph_eval run_eval)

text \<open>
  Claim C3 as amended: for a command with a workspace-level function, \<open>run\<close> calls that
  function exactly once, after the per-package part has returned, whether that part
  succeeded or failed, and the result is the conjunction of the two results; as long
  as the per-package part has not returned, the function is not called. Without a
  per-package function it is called once and gives the result.
\<close>

theorem runWorkspace_once_after_packages:
  assumes "runWorkspace cmd = Some w"
    and "Workspace_run ws cmd only schedule = Some (Inr r)"
  shows "case run cmd of
           None \<Rightarrow> workspaceCalls r = 1 \<and> result r = Some w
         | Some task \<Rightarrow>
             (\<exists>pr. perPackage r = Some pr \<and>
                (case returned pr of
                   None \<Rightarrow> workspaceCalls r = 0 \<and> result r = None
                 | Some b \<Rightarrow> workspaceCalls r = 1 \<and> result r = Some (w \<and> b)))"
  using assms
  by (auto simp: Workspace_run_def Let_def split: option.splits sum.splits)

theorem runWorkspace_once_after_packages_witness:
  "runWorkspace \<lparr>run = Some (fails_on ''A''), runWorkspace = Some True, parallel = None\<rparr>
     = Some True \<and>
   Workspace_run
     \<lparr>packages = [mkPackage ''A'' []], pkgMap = [(''A'', mkPackage ''A'' [])],
        depGraph = [(''A'', [])]\<rparr>
     \<lparr>run = Some (fails_on ''A''), runWorkspace = Some True, parallel = None\<rparr> None
     [mkPackage ''A'' []] =
   Some (Inr \<lparr>perPackage = Some \<lparr>selected = [mkPackage ''A'' []], returned = Some False,
                                  events = [Started ''A'', Completed ''A'' False]\<rparr>,
              workspaceCalls = 1, result = Some False\<rparr>) \<and>
   workspaceCalls \<lparr>perPackage = Some \<lparr>selected = [mkPackage ''A'' []], returned = Some False,
                                  events = [Started ''A'', Completed ''A'' False]\<rparr>,
              workspaceCalls = 1, result = Some False\<rparr> = 1"
proof -
  let ?cmd = "\<lparr>run = Some (fails_on ''A''), runWorkspace = Some True, parallel = None\<rparr>"
  let ?ws = "\<lparr>packages = [mkPackage ''A'' []], pkgMap = [(''A'', mkPackage ''A'' [])],
        depGraph = [(''A'', [])]\<rparr>"
  let ?r = "\<lparr>perPackage = Some \<lparr>selected = [mkPackage ''A'' []], returned = Some False,
                                  events = [Started ''A'', Completed ''A'' False]\<rparr>,
              workspaceCalls = 1, result = Some False\<rparr>"
  have h1: "runWorkspace ?cmd = Some True" by simp
  have h2: "Workspace_run ?ws ?cmd None [mkPackage ''A'' []] = Some (Inr ?r)"
    by (simp add: graph_eval run_eval)
  from runWorkspace_once_after_packages [OF h1 h2]
  have "workspaceCalls ?r = 1" by simp
  with h1 h2 show ?thesis by (intro conjI)
qed




text \<open>
  Claim C8. In parallel mode \<open>runPackages\<close> calls the per-package function on every
  package of the closure, all calls coming first and in the order of the closure, with
  no regard to dependencies; it returns only when all these tasks have completed, and
  then it returns the conjunction of their results (results \<open>true\<close> and \<open>false\<close> give
  \<open>false\<close>).
\<close>

theorem parallel_runs_all:
  assumes ws: "new_Workspace ps = Some (Inr ws)"
    and roots: "set (case only of None \<Rightarrow> ps | Some rs \<Rightarrow> rs) \<subseteq> set ps"
  shows "\<exists>r. runPackages ws True task only schedule = Some (Inr r) \<and>
     dependencyClosure ws (case only of None \<Rightarrow> ps | Some rs \<Rightarrow> rs) = Some (Inr (selected r)) \<and>
     take (length (selected r)) (events r) = map (\<lambda>p. Started (name p)) (selected r) \<and>
     (\<forall>p\<in>set (selected r). Started (name p) \<in> set (events r)) \<and>
     ((returned r = None) = (\<not> set (selected r) \<subseteq> set schedule)) \<and>
     (set (selected r) \<subseteq> set schedule \<longrightarrow>
        returned r = Some (\<forall>p\<in>set (selected r). task p))"
proof -
  let ?rs = "case only of None \<Rightarrow> ps | Some rs \<Rightarrow> rs"
  from dependencyClosure_result [OF ws roots] obtain pkgs where
    dc: "dependencyClosure ws ?rs = Some (Inr pkgs)"
    by (elim exE conjE)
  have rs: "(case only of None \<Rightarrow> packages ws | Some rs \<Rightarrow> rs) = ?rs"
    using new_Workspace_facts(1) [OF ws] by (cases only) simp_all
  let ?r = "parallel_run task pkgs schedule"
  from dc rs have 1: "runPackages ws True task only schedule = Some (Inr ?r)"
    by (simp add: runPackages_def Let_def)
  have sel: "selected ?r = pkgs" by (simp add: parallel_run_def)
  from dc have 2: "dependencyClosure ws ?rs = Some (Inr (selected ?r))" by (simp only: sel)
  have 3: "take (length (selected ?r)) (events ?r) = map (\<lambda>p. Started (name p)) (selected ?r)"
    by (simp add: parallel_run_def)
  have 4: "\<forall>p\<in>set (selected ?r). Started (name p) \<in> set (events ?r)"
    by (auto simp: parallel_run_def)
  have 5: "(returned ?r = None) = (\<not> set (selected ?r) \<subseteq> set schedule)"
    by (auto simp: parallel_run_def list_all_iff)
  have 6: "set (selected ?r) \<subseteq> set schedule \<longrightarrow>
        returned ?r = Some (\<forall>p\<in>set (selected ?r). task p)"
    by (auto simp: parallel_run_def list_all_iff)
  from 1 2 3 4 5 6 show ?thesis by (intro exI conjI)
qed

theorem parallel_runs_all_witness:
  "\<exists>ws r. new_Workspace [mkPackage ''A'' [], mkPackage ''B'' []] = Some (Inr ws) \<and>
     runPackages ws True (fails_on ''B'') None [mkPackage ''B'' [], mkPackage ''A'' []]
       = Some (Inr r) \<and>
     selected r = [mkPackage ''A'' [], mkPackage ''B'' []] \<and>
     set (selected r) \<subseteq> set [mkPackage ''B'' [], mkPackage ''A'' []] \<and>
     map (fails_on ''B'') (selected r) = [True, False] \<and>
     returned r = Some False"
proof -
  let ?ps = "[mkPackage ''A'' [], mkPackage ''B'' []]"
  let ?sch = "[mkPackage ''B'' [], mkPackage ''A'' []]"
  from new_Workspace_props [of ?ps] obtain ws where ws: "new_Workspace ?ps = Some (Inr ws)"
    by (elim exE conjE)
  have roots: "set (case None of None \<Rightarrow> ?ps | Some rs \<Rightarrow> rs) \<subseteq> set ?ps" by simp
  from parallel_runs_all [OF ws roots, of "fails_on ''B''" ?sch] obtain r where
    run: "runPackages ws True (fails_on ''B'') None ?sch = Some (Inr r)"
    and res: "set (selected r) \<subseteq> set ?sch \<longrightarrow>
        returned r = Some (\<forall>p\<in>set (selected r). fails_on ''B'' p)"
    by (elim exE conjE)
  have "load_runPackages ?ps True (fails_on ''B'') None ?sch =
        Some (Inr (parallel_run (fails_on ''B'') ?ps ?sch))"
    by (simp add: graph_eval load_runPackages_def runPackages_def dependencyClosure_def
        closure_loop.simps closure_pass_def add_deps_def)
  with ws run have "r = parallel_run (fails_on ''B'') ?ps ?sch"
    by (simp add: load_runPackages_def)
  then have sel: "selected r = ?ps" by (simp add: parallel_run_def)
  have sub: "set (selected r) \<subseteq> set ?sch" by (auto simp: sel)
  have m: "map (fails_on ''B'') (selected r) = [True, False]"
    by (simp add: sel fails_on_def mkPackage_def mkDevPackage_def)
  from res sub have "returned r = Some (\<forall>p\<in>set (selected r). fails_on ''B'' p)" by (rule mp)
  then have ret: "returned r = Some False"
    by (simp add: sel fails_on_def mkPackage_def mkDevPackage_def)
  from ws run sel sub m ret show ?thesis by (intro exI conjI)
qed

end
